theory Spec2Isabelle
  imports Main "HOL-Library.AList"
begin

section \<open>Values, objects and futures\<close>

text \<open>
  The module \<^verbatim>\<open>qq.js\<close> is written against the futures library \<^verbatim>\<open>q\<close>
  (\<^verbatim>\<open>Q.defer\<close>, \<^verbatim>\<open>Q.when\<close>, \<^verbatim>\<open>Q.get\<close>, \<^verbatim>\<open>Q.reject\<close>), which is an
  external collaborator. It is modelled here as an abstract machine:
  \<^item> a heap of single-assignment futures, addressed by number;
  \<^item> a store of mutable JavaScript objects, addressed by number (the code mutates
    containers in place and builds a self-referential cell in \<^verbatim>\<open>close\<close>);
  \<^item> a first-in first-out queue of continuations that are ready to run.
  Registering a continuation with \<^verbatim>\<open>Q.when\<close> never runs it: a continuation is
  put on the queue when the future it waits for is settled (at once, when it is
  settled already) and runs in a later turn, in queue order. Closures of the source
  are defunctionalised: each \<^verbatim>\<open>function\<close> literal of \<^verbatim>\<open>qq.js\<close> is one constructor
  of \<open>handler\<close> carrying the variables the closure captures.
\<close>

type_synonym pid = nat
type_synonym oid = nat

text \<open>Property names: array indices and identifiers.\<close>

datatype key = Idx nat | Name string

datatype val =
    VUndef
  | VNull
  | VNum int
  | VStr string
  | VObj oid
  | VPromise pid

text \<open>
  Everything for which \<^verbatim>\<open>typeof\<close> is \<^verbatim>\<open>"object"\<close> lives in the object store. An
  object has its own enumerable properties, in enumeration order, and the enumerable
  properties it inherits from its prototype chain.
\<close>

datatype kind = Plain | Array | Date

record obj =
  kind :: kind
  props :: "(key \<times> val) list"
  inherited :: "(key \<times> val) list"

datatype outcome = Fulfilled val | Rejected val

datatype mode = Shallow | Deep

datatype direction = ReduceLeft | ReduceRight

text \<open>What a user-supplied combining function does when it is called.\<close>

datatype cbres =
    CbReturn val
  | CbThrow val
  | CbReject val  \<comment> \<open>returns \<^verbatim>\<open>Q.reject(reason)\<close>\<close>

type_synonym callback = "val \<Rightarrow> val \<Rightarrow> val \<Rightarrow> cbres"  \<comment> \<open>\<^verbatim>\<open>this\<close>, first, second argument\<close>

datatype handler =
    KLink  \<comment> \<open>the future was resolved to another future and takes its outcome\<close>
  | KGet key  \<comment> \<open>\<^verbatim>\<open>Q.get(promise, name)\<close>\<close>
  | KGetResult pid  \<comment> \<open>\<^verbatim>\<open>Queue.get\<close>: the callbacks of its \<^verbatim>\<open>Q.when\<close>; captures \<^verbatim>\<open>closed\<close>\<close>
  | KCons mode  \<comment> \<open>\<^verbatim>\<open>consolidate\<close>: \<^verbatim>\<open>function (object) {...}\<close>\<close>
  | KSync mode oid key val  \<comment> \<open>\<^verbatim>\<open>consolidate\<close>: the callback chained on \<^verbatim>\<open>synchronize\<close>\<close>
  | KAssign oid key  \<comment> \<open>\<^verbatim>\<open>consolidate\<close>: \<^verbatim>\<open>function (value) { object[i] = value; }\<close>\<close>
  | KRet oid  \<comment> \<open>\<^verbatim>\<open>consolidate\<close>: \<^verbatim>\<open>function () { return object; }\<close>\<close>
  | KThat direction val callback val  \<comment> \<open>\<^verbatim>\<open>reducer\<close>: \<^verbatim>\<open>function (that) {...}\<close>\<close>
  | KValues direction callback val val  \<comment> \<open>\<^verbatim>\<open>reducer\<close>: \<^verbatim>\<open>function (values) {...}\<close>\<close>
  | KAcc callback val val  \<comment> \<open>\<^verbatim>\<open>reducer\<close>: \<^verbatim>\<open>function (values) {...}\<close> of the fold\<close>
  | KVal callback val val  \<comment> \<open>\<^verbatim>\<open>reducer\<close>: \<^verbatim>\<open>function (value) {...}\<close> of the fold\<close>
  | KPush callback val  \<comment> \<open>\<^verbatim>\<open>reduce\<close>: the callback mapped over the elements\<close>
  | KComb callback val  \<comment> \<open>\<^verbatim>\<open>reduce\<close>: the callbacks on the combiner's result\<close>
  | KDone  \<comment> \<open>\<^verbatim>\<open>reduce\<close>: the callbacks on the shallow resolution\<close>

datatype pstate =
    Pending "(handler \<times> pid) list"
  | Following pid "(handler \<times> pid) list"
  | Settled outcome

type_synonym task = "handler \<times> pid \<times> outcome"

text \<open>
  The machine. \<open>accumulators\<close> and \<open>reduction\<close> are the local variables of one call of
  \<^verbatim>\<open>reduce\<close>, which its closures share; \<open>calls\<close> records every invocation of the
  combining function made by \<^verbatim>\<open>reduce\<close>.
\<close>

record machine =
  heap :: "pstate list"
  objs :: "obj list"
  queue :: "task list"
  accumulators :: "val list"
  reduction :: pid
  calls :: "(val \<times> val) list"

definition init :: machine where
  "init = \<lparr>heap = [], objs = [], queue = [], accumulators = [], reduction = 0, calls = []\<rparr>"

subsection \<open>Objects\<close>

definition new_obj :: "obj \<Rightarrow> machine \<Rightarrow> oid \<times> machine" where
  "new_obj ob m = (length (objs m), m\<lparr>objs := objs m @ [ob]\<rparr>)"

definition get_prop :: "obj \<Rightarrow> key \<Rightarrow> val" where
  "get_prop ob k =
     (case map_of (props ob) k of
        Some v \<Rightarrow> v
      | None \<Rightarrow> (case map_of (inherited ob) k of Some v \<Rightarrow> v | None \<Rightarrow> VUndef))"

text \<open>Assignment \<^verbatim>\<open>object[k] = v\<close> creates or overwrites an own property.\<close>

definition set_prop :: "oid \<Rightarrow> key \<Rightarrow> val \<Rightarrow> machine \<Rightarrow> machine" where
  "set_prop a k v m =
     (if a < length (objs m)
      then m\<lparr>objs := (objs m)[a := (objs m ! a)\<lparr>props := AList.update k v (props (objs m ! a))\<rparr>]\<rparr>
      else m)"

text \<open>
  \<^verbatim>\<open>for (var i in object)\<close> visits the own enumerable properties and then the inherited
  enumerable ones that are not shadowed.
\<close>

definition for_in :: "obj \<Rightarrow> key list" where
  "for_in ob = map fst (props ob) @ filter (\<lambda>k. k \<notin> set (map fst (props ob))) (map fst (inherited ob))"

definition own_keys :: "obj \<Rightarrow> key list" where
  "own_keys ob = map fst (props ob)"

definition array_of :: "val list \<Rightarrow> obj" where
  "array_of vs = \<lparr>kind = Array, props = zip (map Idx [0..<length vs]) vs, inherited = []\<rparr>"

definition object_of :: "(key \<times> val) list \<Rightarrow> obj" where
  "object_of ps = \<lparr>kind = Plain, props = ps, inherited = []\<rparr>"

subsection \<open>Futures\<close>

definition new_promise :: "pstate \<Rightarrow> machine \<Rightarrow> pid \<times> machine" where
  "new_promise st m = (length (heap m), m\<lparr>heap := heap m @ [st]\<rparr>)"

text \<open>\<^verbatim>\<open>Q.defer()\<close>\<close>

definition q_defer :: "machine \<Rightarrow> pid \<times> machine" where
  "q_defer m = new_promise (Pending []) m"

text \<open>\<^verbatim>\<open>Q.reject(reason)\<close>\<close>

definition q_reject :: "val \<Rightarrow> machine \<Rightarrow> pid \<times> machine" where
  "q_reject reason m = new_promise (Settled (Rejected reason)) m"

definition waiters :: "pstate \<Rightarrow> (handler \<times> pid) list" where
  "waiters st = (case st of Pending ws \<Rightarrow> ws | Following _ ws \<Rightarrow> ws | Settled _ \<Rightarrow> [])"

definition add_waiter :: "handler \<times> pid \<Rightarrow> pstate \<Rightarrow> pstate" where
  "add_waiter w st =
     (case st of
        Pending ws \<Rightarrow> Pending (ws @ [w])
      | Following p ws \<Rightarrow> Following p (ws @ [w])
      | Settled out \<Rightarrow> Settled out)"

text \<open>A future takes its outcome; the continuations waiting for it become ready.\<close>

definition settle :: "pid \<Rightarrow> outcome \<Rightarrow> machine \<Rightarrow> machine" where
  "settle d out m =
     (if d < length (heap m)
      then (case heap m ! d of
              Settled _ \<Rightarrow> m
            | st \<Rightarrow> m\<lparr>heap := (heap m)[d := Settled out],
                      queue := queue m @ map (\<lambda>(h, r). (h, r, out)) (waiters st)\<rparr>)
      else m)"

text \<open>
  \<^verbatim>\<open>deferred.resolve(value)\<close>. Only the first call on a deferred has an effect. A
  deferred resolved to a future takes that future's outcome, now or when it settles.
\<close>

definition resolve :: "pid \<Rightarrow> val \<Rightarrow> machine \<Rightarrow> machine" where
  "resolve d v m =
     (if d < length (heap m)
      then (case heap m ! d of
              Pending ws \<Rightarrow>
                (case v of
                   VPromise p \<Rightarrow>
                     (if p < length (heap m) \<and> p \<noteq> d
                      then (case heap m ! p of
                              Settled out \<Rightarrow> settle d out m
                            | st \<Rightarrow> m\<lparr>heap := (heap m)[d := Following p ws, p := add_waiter (KLink, d) st]\<rparr>)
                      else m\<lparr>heap := (heap m)[d := Following p ws]\<rparr>)
                 | _ \<Rightarrow> settle d (Fulfilled v) m)
            | _ \<Rightarrow> m)
      else m)"

text \<open>\<^verbatim>\<open>deferred.reject(reason)\<close> is \<^verbatim>\<open>deferred.resolve(Q.reject(reason))\<close>.\<close>

definition reject :: "pid \<Rightarrow> val \<Rightarrow> machine \<Rightarrow> machine" where
  "reject d reason m = (let (p, m1) = q_reject reason m in resolve d (VPromise p) m1)"

text \<open>
  Register continuation \<open>h\<close>, whose result settles \<open>r\<close>, on a value. The registration is made
  at the call of \<^verbatim>\<open>Q.when\<close>; a continuation never runs in the turn in which it is registered.
\<close>

definition subscribe :: "val \<Rightarrow> handler \<Rightarrow> pid \<Rightarrow> machine \<Rightarrow> machine" where
  "subscribe v h r m =
     (case v of
        VPromise p \<Rightarrow>
          (if p < length (heap m)
           then (case heap m ! p of
                   Settled out \<Rightarrow> m\<lparr>queue := queue m @ [(h, r, out)]\<rparr>
                 | st \<Rightarrow> m\<lparr>heap := (heap m)[p := add_waiter (h, r) st]\<rparr>)
           else m)
      | _ \<Rightarrow> m\<lparr>queue := queue m @ [(h, r, Fulfilled v)]\<rparr>)"

text \<open>\<^verbatim>\<open>Q.when(value, ...)\<close> and \<^verbatim>\<open>Q.get(value, name)\<close> return a new future.\<close>

definition q_when :: "val \<Rightarrow> handler \<Rightarrow> machine \<Rightarrow> val \<times> machine" where
  "q_when v h m = (let (r, m1) = q_defer m in (VPromise r, subscribe v h r m1))"

definition q_get :: "val \<Rightarrow> key \<Rightarrow> machine \<Rightarrow> val \<times> machine" where
  "q_get v k m = q_when v (KGet k) m"

subsection \<open>Running continuations\<close>

datatype hres = Return val | Throw val

definition of_cbres :: "cbres \<Rightarrow> machine \<Rightarrow> hres \<times> machine" where
  "of_cbres c m =
     (case c of
        CbReturn v \<Rightarrow> (Return v, m)
      | CbThrow e \<Rightarrow> (Throw e, m)
      | CbReject reason \<Rightarrow> (let (p, m1) = q_reject reason m in (Return (VPromise p), m1)))"

section \<open>The resolver: \<^verbatim>\<open>shallow\<close>, \<^verbatim>\<open>deep\<close>, \<^verbatim>\<open>consolidate\<close>\<close>

text \<open>
  \<^verbatim>\<open>consolidate(object, deep)\<close> is called with the identity function (by \<^verbatim>\<open>shallow\<close>)
  or with \<^verbatim>\<open>deep\<close> itself (by \<^verbatim>\<open>deep\<close>); the \<open>mode\<close> says which.
\<close>

definition consolidate :: "val \<Rightarrow> mode \<Rightarrow> machine \<Rightarrow> val \<times> machine" where
  "consolidate object mode m = q_when object (KCons mode) m"

definition shallow :: "val \<Rightarrow> machine \<Rightarrow> val \<times> machine" where
  "shallow object m = consolidate object Shallow m"

definition deep :: "val \<Rightarrow> machine \<Rightarrow> val \<times> machine" where
  "deep object m = consolidate object Deep m"

definition apply_deep :: "mode \<Rightarrow> val \<Rightarrow> machine \<Rightarrow> val \<times> machine" where
  "apply_deep mode v m = (case mode of Shallow \<Rightarrow> (v, m) | Deep \<Rightarrow> deep v m)"

text \<open>The \<^verbatim>\<open>for (var i in object)\<close> loop of \<^verbatim>\<open>consolidate\<close>.\<close>

fun sync_loop :: "mode \<Rightarrow> oid \<Rightarrow> key list \<Rightarrow> val \<Rightarrow> machine \<Rightarrow> val \<times> machine" where
  "sync_loop mode a [] synchronize m = (synchronize, m)"
| "sync_loop mode a (i # ks) synchronize m =
     (let (s, m1) = q_when synchronize (KSync mode a i (get_prop (objs m ! a) i)) m
      in sync_loop mode a ks s m1)"

definition cons_body :: "mode \<Rightarrow> val \<Rightarrow> machine \<Rightarrow> hres \<times> machine" where
  "cons_body mode object m =
     (case object of
        VObj a \<Rightarrow>
          (if a < length (objs m) \<and> kind (objs m ! a) \<noteq> Date
           then (let (s, m1) = sync_loop mode a (for_in (objs m ! a)) VUndef m;
                     (p, m2) = q_when s (KRet a) m1
                 in (Return p, m2))
           else (Return object, m))
      | _ \<Rightarrow> (Return object, m))"

section \<open>The ordered reducers: \<^verbatim>\<open>reduceLeft\<close>, \<^verbatim>\<open>reduceRight\<close>\<close>

definition reducer :: "direction \<Rightarrow> val \<Rightarrow> callback \<Rightarrow> val \<Rightarrow> val \<Rightarrow> machine \<Rightarrow> val \<times> machine" where
  "reducer direction values callback basis that m =
     q_when that (KThat direction values callback basis) m"

definition reduceLeft :: "val \<Rightarrow> callback \<Rightarrow> val \<Rightarrow> val \<Rightarrow> machine \<Rightarrow> val \<times> machine" where
  "reduceLeft = reducer ReduceLeft"

definition reduceRight :: "val \<Rightarrow> callback \<Rightarrow> val \<Rightarrow> val \<Rightarrow> machine \<Rightarrow> val \<times> machine" where
  "reduceRight = reducer ReduceRight"

text \<open>
  \<^verbatim>\<open>values[direction](f, basis)\<close> on an array: the fold itself is synchronous and
  chains one \<^verbatim>\<open>Q.when\<close> per element.
\<close>

fun array_reduce :: "callback \<Rightarrow> val \<Rightarrow> val list \<Rightarrow> val \<Rightarrow> machine \<Rightarrow> val \<times> machine" where
  "array_reduce callback that [] acc m = (acc, m)"
| "array_reduce callback that (x # xs) acc m =
     (let (p, m1) = q_when acc (KAcc callback that x) m in array_reduce callback that xs p m1)"

definition values_body :: "direction \<Rightarrow> callback \<Rightarrow> val \<Rightarrow> val \<Rightarrow> val \<Rightarrow> machine \<Rightarrow> hres \<times> machine" where
  "values_body direction callback basis that values m =
     (case values of
        VObj a \<Rightarrow>
          (if a < length (objs m) \<and> kind (objs m ! a) = Array
           then (let elems = map snd (props (objs m ! a));
                     (p, m1) = array_reduce callback that
                                 (case direction of ReduceLeft \<Rightarrow> elems | ReduceRight \<Rightarrow> rev elems)
                                 basis m
                 in (Return p, m1))
           else (Throw (VStr ''TypeError''), m))
      | _ \<Rightarrow> (Throw (VStr ''TypeError''), m))"

section \<open>The opportunistic reducer: \<^verbatim>\<open>reduce\<close>\<close>

text \<open>The inner function \<^verbatim>\<open>reduce()\<close>; it returns the exception the combiner threw, if any.\<close>

definition reduce_inner :: "callback \<Rightarrow> val \<Rightarrow> machine \<Rightarrow> val option \<times> machine" where
  "reduce_inner callback that m =
     (case accumulators m of
        a # b # rest \<Rightarrow>
          (case of_cbres (callback that a b) (m\<lparr>accumulators := rest, calls := calls m @ [(a, b)]\<rparr>) of
             (Throw e, m1) \<Rightarrow> (Some e, m1)
           | (Return v, m1) \<Rightarrow> (None, snd (q_when v (KComb callback that) m1)))
      | _ \<Rightarrow> (None, m))"

definition push_body :: "callback \<Rightarrow> val \<Rightarrow> val \<Rightarrow> machine \<Rightarrow> hres \<times> machine" where
  "push_body callback that v m =
     (case reduce_inner callback that (m\<lparr>accumulators := accumulators m @ [v]\<rparr>) of
        (None, m1) \<Rightarrow> (Return VUndef, m1)
      | (Some e, m1) \<Rightarrow> (Throw e, m1))"

definition done_body :: "machine \<Rightarrow> hres \<times> machine" where
  "done_body m =
     (case accumulators m of
        [] \<Rightarrow> (Return VUndef, resolve (reduction m) VUndef m)
      | a # rest \<Rightarrow> (Return VUndef, resolve (reduction m) a (m\<lparr>accumulators := rest\<rparr>)))"

text \<open>
  \<^verbatim>\<open>reduce\<close> uses two names that \<^verbatim>\<open>qq.js\<close> does not define: the variable \<^verbatim>\<open>UTIL\<close>
  (no \<^verbatim>\<open>var\<close>, no \<^verbatim>\<open>require\<close>) and the property \<^verbatim>\<open>shallow\<close> of the imported
  library object \<^verbatim>\<open>Q\<close> (the module adds \<^verbatim>\<open>shallow\<close> to its own \<^verbatim>\<open>exports\<close>, not to
  \<^verbatim>\<open>Q\<close>). Whether the surrounding program binds them is a parameter.
\<close>

record globals =
  UTIL_bound :: bool
  Q_shallow_bound :: bool

text \<open>What \<^verbatim>\<open>qq.js\<close> binds by itself.\<close>

definition module_globals :: globals where
  "module_globals = \<lparr>UTIL_bound = False, Q_shallow_bound = False\<rparr>"

datatype error = ReferenceError string | TypeError string

fun map_when :: "handler \<Rightarrow> val list \<Rightarrow> machine \<Rightarrow> val list \<times> machine" where
  "map_when h [] m = ([], m)"
| "map_when h (x # xs) m =
     (let (p, m1) = q_when x h m; (ps, m2) = map_when h xs m1 in (p # ps, m2))"

text \<open>
  Modelled from the spec: \<^verbatim>\<open>UTIL.map\<close> is not part of \<^verbatim>\<open>qq.js\<close>. Following the spec
  (each original element, once resolved, is appended to the accumulator sequence),
  \<^verbatim>\<open>UTIL.map(values, f)\<close> calls \<^verbatim>\<open>f\<close> on each element of the array, in order, and
  returns the array of the results; \<^verbatim>\<open>f\<close> is the closure
  \<^verbatim>\<open>function (value) { return Q.when(value, ...); }\<close> of \<^verbatim>\<open>reduce\<close>. \<^verbatim>\<open>Q.shallow\<close>
  is taken to be \<^verbatim>\<open>shallow\<close> of this module.
\<close>

definition util_map :: "val \<Rightarrow> handler \<Rightarrow> machine \<Rightarrow> val option \<times> machine" where
  "util_map values h m =
     (case values of
        VObj a \<Rightarrow>
          (if a < length (objs m) \<and> kind (objs m ! a) = Array
           then (let (ps, m1) = map_when h (map snd (props (objs m ! a))) m;
                     (b, m2) = new_obj (array_of ps) m1
                 in (Some (VObj b), m2))
           else (None, m))
      | _ \<Rightarrow> (None, m))"

text \<open>
  \<^verbatim>\<open>reduce(values, callback, accumulator, that)\<close>; the accumulator is optional
  (\<^verbatim>\<open>arguments.length > 2\<close>). The call either raises an error or returns
  \<^verbatim>\<open>reduction.promise\<close>.
\<close>

definition reduce :: "globals \<Rightarrow> val \<Rightarrow> callback \<Rightarrow> val option \<Rightarrow> val \<Rightarrow> machine \<Rightarrow> (error + val) \<times> machine" where
  "reduce g values callback accumulator that m =
     (let (red, m1) = q_defer (m\<lparr>accumulators := (case accumulator of None \<Rightarrow> [] | Some a \<Rightarrow> [a])\<rparr>);
          m2 = m1\<lparr>reduction := red\<rparr>
      in if \<not> UTIL_bound g then (Inl (ReferenceError ''UTIL''), m2)
         else (case util_map values (KPush callback that) m2 of
                 (None, m3) \<Rightarrow> (Inl (TypeError ''UTIL.map''), m3)
               | (Some mapped, m3) \<Rightarrow>
                   (if \<not> Q_shallow_bound g then (Inl (TypeError ''Q.shallow''), m3)
                    else (let (s, m4) = shallow mapped m3;
                              (w, m5) = q_when s KDone m4
                          in (Inr (VPromise red), m5)))))"

section \<open>The continuations\<close>

text \<open>
  What each closure of \<^verbatim>\<open>qq.js\<close> does when it is called with the outcome of the future
  it waits for. A \<^verbatim>\<open>Q.when\<close> without a rejection callback passes a rejection on.
\<close>

fun body :: "handler \<Rightarrow> outcome \<Rightarrow> machine \<Rightarrow> hres \<times> machine" where
  "body (KGet k) (Fulfilled v) m =
     (case v of
        VObj a \<Rightarrow> (if a < length (objs m) then (Return (get_prop (objs m ! a) k), m)
                   else (Return VUndef, m))
      | VUndef \<Rightarrow> (Throw (VStr ''TypeError''), m)
      | VNull \<Rightarrow> (Throw (VStr ''TypeError''), m)
      | _ \<Rightarrow> (Return VUndef, m))"
| "body (KGetResult closed) (Fulfilled v) m = (Return v, m)"
| "body (KGetResult closed) (Rejected reason) m =
     (let m1 = resolve closed VUndef m; (p, m2) = q_reject reason m1 in (Return (VPromise p), m2))"
| "body (KCons mode) (Fulfilled object) m = cons_body mode object m"
| "body (KSync mode a i v) (Fulfilled _) m =
     (let (d, m1) = apply_deep mode v m; (p, m2) = q_when d (KAssign a i) m1 in (Return p, m2))"
| "body (KAssign a i) (Fulfilled v) m = (Return VUndef, set_prop a i v m)"
| "body (KRet a) (Fulfilled _) m = (Return (VObj a), m)"
| "body (KThat direction values callback basis) (Fulfilled that) m =
     (let (p, m1) = q_when values (KValues direction callback basis that) m in (Return p, m1))"
| "body (KValues direction callback basis that) (Fulfilled values) m =
     values_body direction callback basis that values m"
| "body (KAcc callback that v) (Fulfilled values) m =
     (let (p, m1) = q_when v (KVal callback that values) m in (Return p, m1))"
| "body (KVal callback that values) (Fulfilled v) m = of_cbres (callback that values v) m"
| "body (KPush callback that) (Fulfilled v) m = push_body callback that v m"
| "body (KComb callback that) (Fulfilled v) m = push_body callback that v m"
| "body (KComb callback that) (Rejected reason) m =
     (let (e, m1) = new_obj (object_of [(Name ''message'', VStr ''error in reduction''),
                                        (Name ''child'', reason)]) m
      in (Return VUndef, reject (reduction m1) (VObj e) m1))"
| "body KDone (Fulfilled _) m = done_body m"
| "body KDone (Rejected reason) m =
     (let (e, m1) = new_obj (object_of [(Name ''child'', reason)]) m
      in (Return VUndef, reject (reduction m1) (VObj e) m1))"
| "body KLink out m = (Return VUndef, m)"
| "body _ (Rejected reason) m = (Throw reason, m)"

text \<open>
  The result of a continuation resolves the future \<^verbatim>\<open>Q.when\<close> returned; an exception
  rejects it.
\<close>

definition finish :: "pid \<Rightarrow> hres \<times> machine \<Rightarrow> machine" where
  "finish r rm = (case rm of (Return v, m) \<Rightarrow> resolve r v m | (Throw e, m) \<Rightarrow> reject r e m)"

fun deliver :: "task \<Rightarrow> machine \<Rightarrow> machine" where
  "deliver (KLink, r, out) m = settle r out m"
| "deliver (h, r, out) m = finish r (body h out m)"

text \<open>One turn of the event loop; \<open>run n\<close> takes up to \<open>n\<close> turns and stops when no
  continuation is ready.\<close>

definition step :: "machine \<Rightarrow> machine" where
  "step m = (case queue m of [] \<Rightarrow> m | t # q \<Rightarrow> deliver t (m\<lparr>queue := q\<rparr>))"

definition quiescent :: "machine \<Rightarrow> bool" where
  "quiescent m = (case queue m of [] \<Rightarrow> True | _ \<Rightarrow> False)"

fun run :: "nat \<Rightarrow> machine \<Rightarrow> machine" where
  "run 0 m = m"
| "run (Suc n) m = (if quiescent m then m else run n (step m))"

text \<open>The state of the future a value denotes.\<close>

definition state_of :: "machine \<Rightarrow> val \<Rightarrow> pstate" where
  "state_of m v = (case v of VPromise p \<Rightarrow> heap m ! p | _ \<Rightarrow> Settled (Fulfilled v))"

text \<open>The outcome of a future, \<open>None\<close> while it is pending.\<close>

definition outcome_of :: "machine \<Rightarrow> val \<Rightarrow> outcome option" where
  "outcome_of m v = (case state_of m v of Settled out \<Rightarrow> Some out | _ \<Rightarrow> None)"

section \<open>The queue\<close>

text \<open>The variables \<^verbatim>\<open>ends\<close> and \<^verbatim>\<open>closed\<close> that the methods of one \<^verbatim>\<open>Queue()\<close> share.\<close>

record queue_vars =
  ends_resolve :: pid  \<comment> \<open>the deferred that \<^verbatim>\<open>ends.resolve\<close> resolves\<close>
  ends_promise :: val  \<comment> \<open>\<^verbatim>\<open>ends.promise\<close>\<close>
  closed :: pid

definition Queue :: "machine \<Rightarrow> queue_vars \<times> machine" where
  "Queue m =
     (let (ends, m1) = q_defer m; (cl, m2) = q_defer m1
      in (\<lparr>ends_resolve = ends, ends_promise = VPromise ends, closed = cl\<rparr>, m2))"

definition put :: "val \<Rightarrow> queue_vars \<times> machine \<Rightarrow> queue_vars \<times> machine" where
  "put v qm =
     (case qm of (q, m) \<Rightarrow>
        (let (nxt, m1) = q_defer m;
             (cell, m2) = new_obj (object_of [(Name ''head'', v), (Name ''tail'', VPromise nxt)]) m1;
             m3 = resolve (ends_resolve q) (VObj cell) m2
         in (q\<lparr>ends_resolve := nxt\<rparr>, m3)))"

definition get :: "queue_vars \<times> machine \<Rightarrow> val \<times> queue_vars \<times> machine" where
  "get qm =
     (case qm of (q, m) \<Rightarrow>
        (let (result, m1) = q_get (ends_promise q) (Name ''head'') m;
             (tail, m2) = q_get (ends_promise q) (Name ''tail'') m1;
             (g, m3) = q_when result (KGetResult (closed q)) m2
         in (g, q\<lparr>ends_promise := tail\<rparr>, m3)))"

definition close :: "val \<Rightarrow> queue_vars \<times> machine \<Rightarrow> val \<times> queue_vars \<times> machine" where
  "close reason qm =
     (case qm of (q, m) \<Rightarrow>
        (let (rej, m1) = q_reject reason m;
             (e, m2) = new_obj (object_of [(Name ''head'', VPromise rej)]) m1;
             m3 = set_prop e (Name ''tail'') (VObj e) m2;
             m4 = resolve (ends_resolve q) (VObj e) m3
         in (VPromise (closed q), q, m4)))"

section \<open>Clients\<close>

text \<open>
  What the program around the module does between turns of the event loop: it settles
  a future it created, or lets the event loop take some turns.
\<close>

datatype event = Settle pid val | Break pid val | Turns nat

fun play :: "event list \<Rightarrow> machine \<Rightarrow> machine" where
  "play [] m = m"
| "play (Settle p v # es) m = play es (resolve p v m)"
| "play (Break p reason # es) m = play es (reject p reason m)"
| "play (Turns n # es) m = play es (run n m)"

text \<open>\<open>futures n\<close> creates the pending futures \<open>0, ..., n - 1\<close> in the empty machine.\<close>

fun futures :: "nat \<Rightarrow> machine" where
  "futures 0 = init"
| "futures (Suc n) = snd (q_defer (futures n))"

text \<open>
  Settle the futures in the given order, future \<open>p\<close> with the value \<open>vs ! p\<close>; between
  two settlements the event loop takes the given number of turns.
\<close>

fun schedule :: "val list \<Rightarrow> nat list \<Rightarrow> nat list \<Rightarrow> event list" where
  "schedule vs [] gs = []"
| "schedule vs (p # ps) [] = Settle p (vs ! p) # schedule vs ps []"
| "schedule vs (p # ps) (g # gs) = Settle p (vs ! p) # Turns g # schedule vs ps gs"

definition orders :: "nat \<Rightarrow> nat list list" where
  "orders n = filter distinct (List.n_lists n [0..<n])"

definition add :: callback where
  "add that a b = (case (a, b) of (VNum x, VNum y) \<Rightarrow> CbReturn (VNum (x + y)) | _ \<Rightarrow> CbReturn VUndef)"

definition subtract :: callback where
  "subtract that a b = (case (a, b) of (VNum x, VNum y) \<Rightarrow> CbReturn (VNum (x - y)) | _ \<Rightarrow> CbReturn VUndef)"

text \<open>The examples of the specification.\<close>

definition reduceLeft_start :: machine where
  "reduceLeft_start =
     snd (reduceLeft (VObj 0) subtract (VNum 10) VUndef
            (snd (new_obj (array_of [VPromise 0, VPromise 1, VPromise 2]) (futures 3))))"

definition reduceLeft_ok :: "nat list \<times> nat list \<Rightarrow> bool" where
  "reduceLeft_ok og =
     (let m = run 64 (play (schedule [VNum 2, VNum 3, VNum 4] (fst og) (snd og)) reduceLeft_start)
      in quiescent m \<and> outcome_of m (VPromise 3) = Some (Fulfilled (VNum 1)))"

text \<open>
  \<^verbatim>\<open>reduce([Future(1), Future(2), Future(3), Future(4)], add)\<close> in the module as it stands: the
  array is object \<open>0\<close> and holds the pending futures \<open>0\<close> to \<open>3\<close>.
\<close>

definition sum_call :: "(error + val) \<times> machine" where
  "sum_call =
     reduce module_globals (VObj 0) add None VUndef
       (snd (new_obj (array_of [VPromise 0, VPromise 1, VPromise 2, VPromise 3]) (futures 4)))"

definition sum_run :: machine where
  "sum_run =
     run 64 (play (schedule [VNum 1, VNum 2, VNum 3, VNum 4] [0, 1, 2, 3] [64, 64, 64]) (snd sum_call))"

text \<open>
  \<^verbatim>\<open>reduce([Q.reject("bad"), 2], add)\<close> in the module as it stands: future \<open>0\<close> is rejected and
  the array is object \<open>0\<close>.
\<close>

definition spoiled_call :: "(error + val) \<times> machine" where
  "spoiled_call =
     reduce module_globals (VObj 0) add None VUndef
       (snd (new_obj (array_of [VPromise 0, VNum 2]) (snd (q_reject (VStr ''bad'') init))))"

text \<open>An object that inherits an enumerable property holding future \<open>0\<close>.\<close>

definition heir :: obj where
  "heir = \<lparr>kind = Plain, props = [(Name ''own'', VNum 1)], inherited = [(Name ''inh'', VPromise 0)]\<rparr>"

definition heir_run :: "mode \<Rightarrow> machine" where
  "heir_run mode =
     run 64 (play [Settle 0 (VNum 2)] (snd (consolidate (VObj 0) mode (snd (new_obj heir (futures 1))))))"

section \<open>Queue sessions\<close>

text \<open>
  A client of one queue makes calls of \<^verbatim>\<open>put\<close>, \<^verbatim>\<open>get\<close> and \<^verbatim>\<open>close\<close> in any order, and
  the event loop may take turns between two calls. A session holds the variables of the queue,
  the machine, and the futures that the calls of \<^verbatim>\<open>get\<close> have returned, in call order.
\<close>

record session =
  vars :: queue_vars
  mach :: machine
  results :: "val list"

datatype op = Put val | Get | Close val | Turn

text \<open>\<^verbatim>\<open>var queue = Queue()\<close> in the empty machine.\<close>

definition start :: session where
  "start = (let (q, m) = Queue init in \<lparr>vars = q, mach = m, results = []\<rparr>)"

fun apply_op :: "op \<Rightarrow> session \<Rightarrow> session" where
  "apply_op (Put v) s = (let (q, m) = put v (vars s, mach s) in s\<lparr>vars := q, mach := m\<rparr>)"
| "apply_op Get s =
     (let (g, q, m) = get (vars s, mach s) in s\<lparr>vars := q, mach := m, results := results s @ [g]\<rparr>)"
| "apply_op (Close reason) s =
     (let (c, q, m) = close reason (vars s, mach s) in s\<lparr>vars := q, mach := m\<rparr>)"
| "apply_op Turn s = s\<lparr>mach := step (mach s)\<rparr>"

definition exec :: "op list \<Rightarrow> session" where
  "exec ops = foldl (\<lambda>s x. apply_op x s) start ops"

text \<open>
  What a sequence of calls says by itself: the values put before the first \<^verbatim>\<open>close\<close>, the reason
  of the first \<^verbatim>\<open>close\<close>, and the number of calls of \<^verbatim>\<open>get\<close>.
\<close>

fun accepted :: "op list \<Rightarrow> val list" where
  "accepted [] = []"
| "accepted (Put v # ops) = v # accepted ops"
| "accepted (Close reason # ops) = []"
| "accepted (Get # ops) = accepted ops"
| "accepted (Turn # ops) = accepted ops"

fun closing :: "op list \<Rightarrow> val option" where
  "closing [] = None"
| "closing (Close reason # ops) = Some reason"
| "closing (Put v # ops) = closing ops"
| "closing (Get # ops) = closing ops"
| "closing (Turn # ops) = closing ops"

fun gets :: "op list \<Rightarrow> nat" where
  "gets [] = 0"
| "gets (Get # ops) = Suc (gets ops)"
| "gets (Put v # ops) = gets ops"
| "gets (Close reason # ops) = gets ops"
| "gets (Turn # ops) = gets ops"

text \<open>A value that is not a future. The values put before the queue is closed are such values.\<close>

definition plain :: "val \<Rightarrow> bool" where
  "plain v = (case v of VPromise p \<Rightarrow> False | _ \<Rightarrow> True)"

definition plain_puts :: "op list \<Rightarrow> bool" where
  "plain_puts ops = list_all plain (accepted ops)"

text \<open>
  The outcome that the \<open>i\<close>-th call of \<^verbatim>\<open>get\<close> is to have: the \<open>i\<close>-th accepted value, or the
  rejection with the reason of \<^verbatim>\<open>close\<close>, or none yet.
\<close>

definition expected :: "op list \<Rightarrow> nat \<Rightarrow> outcome option" where
  "expected ops i =
     (if i < length (accepted ops) then Some (Fulfilled (accepted ops ! i))
      else (case closing ops of None \<Rightarrow> None | Some reason \<Rightarrow> Some (Rejected reason)))"

text \<open>Three sessions.\<close>

definition fifo_ops :: "op list" where
  "fifo_ops = [Get, Put (VNum 1), Turn, Put (VNum 2), Get, Get, Put (VNum 3)]"

definition close_ops :: "op list" where
  "close_ops = [Put (VNum 1), Get, Close (VStr ''done''), Get, Turn, Get]"

definition late_ops :: "op list" where
  "late_ops = [Put (VNum 1), Close (VStr ''done''), Get, Get]"

text \<open>
  A queue that is made when future \<open>0\<close> is already rejected: that future is put, and one call
  of \<^verbatim>\<open>get\<close> is made.
\<close>

definition rejected_item :: session where
  "rejected_item =
     foldl (\<lambda>s x. apply_op x s)
       (let (p, m0) = q_reject (VStr ''x'') init; (q, m) = Queue m0
        in \<lparr>vars = q, mach = m, results = []\<rparr>)
       [Put (VPromise 0), Get]"

section \<open>The invariant of a queue\<close>

text \<open>
  Every future that a queue creates has one role. \<open>TProd i\<close> is the deferred that the \<open>i\<close>-th
  accepted \<^verbatim>\<open>put\<close> (or the first \<^verbatim>\<open>close\<close>) resolves with its cell; \<open>TCur i\<close> is \<^verbatim>\<open>ends.promise\<close>
  after \<open>i\<close> calls of \<^verbatim>\<open>get\<close>, the future of the \<open>i\<close>-th cell; \<open>THead i\<close> is the future of the head
  of the \<open>i\<close>-th cell; \<open>TRes i\<close> is the future that the \<open>i\<close>-th \<^verbatim>\<open>get\<close> returns; \<open>TClosed\<close> is
  \<^verbatim>\<open>closed.promise\<close>; \<open>TJunk\<close> is a future that nothing waits for (those that \<^verbatim>\<open>put\<close> and \<^verbatim>\<open>close\<close>
  create once the queue is closed, and the rejection that \<^verbatim>\<open>close\<close> stores).
\<close>

datatype ty = TProd nat | TCur nat | THead nat | TRes nat | TClosed | TJunk

text \<open>
  The history of a queue: the accepted values, the reason of \<^verbatim>\<open>close\<close>, the number of calls of
  \<^verbatim>\<open>get\<close>, the cell of each accepted value, the cell that \<^verbatim>\<open>close\<close> made, and the role of
  each future.
\<close>

record ghost =
  g_vs :: "val list"
  g_cl :: "val option"
  g_k :: nat
  g_cells :: "oid list"
  g_end :: oid
  g_ty :: "pid \<Rightarrow> ty"

text \<open>The outcome that a future of a given role has once it is settled.\<close>

definition den_cell :: "ghost \<Rightarrow> nat \<Rightarrow> outcome option" where
  "den_cell G i =
     (if i < length (g_vs G) then Some (Fulfilled (VObj (g_cells G ! i)))
      else (case g_cl G of None \<Rightarrow> None | Some r \<Rightarrow> Some (Fulfilled (VObj (g_end G)))))"

definition den_head :: "ghost \<Rightarrow> nat \<Rightarrow> outcome option" where
  "den_head G i =
     (if i < length (g_vs G) then Some (Fulfilled (g_vs G ! i))
      else (case g_cl G of None \<Rightarrow> None | Some r \<Rightarrow> Some (Rejected r)))"

fun den :: "ghost \<Rightarrow> ty \<Rightarrow> outcome option" where
  "den G (TProd i) = den_cell G i"
| "den G (TCur i) = den_cell G i"
| "den G (THead i) = den_head G i"
| "den G (TRes i) = den_head G i"
| "den G TClosed = None"
| "den G TJunk = None"

text \<open>The continuations that may wait for a future of a given role, with the role of their result.\<close>

fun wt :: "pid \<Rightarrow> ty \<Rightarrow> handler \<Rightarrow> ty \<Rightarrow> bool" where
  "wt c (TProd i) h tr =
     (h = KGet (Name ''head'') \<and> tr = THead i \<or> h = KGet (Name ''tail'') \<and> tr = TCur (Suc i)
      \<or> h = KLink \<and> tr = TCur i)"
| "wt c (TCur i) h tr =
     (h = KGet (Name ''head'') \<and> tr = THead i \<or> h = KGet (Name ''tail'') \<and> tr = TCur (Suc i))"
| "wt c (THead i) h tr = (h = KGetResult c \<and> tr = TRes i)"
| "wt c (TRes i) h tr = False"
| "wt c TClosed h tr = False"
| "wt c TJunk h tr = False"

fun bounds :: "ghost \<Rightarrow> ty \<Rightarrow> bool" where
  "bounds G (TProd i) = (i \<le> length (g_vs G))"
| "bounds G (TCur i) = (1 \<le> i \<and> i \<le> g_k G)"
| "bounds G (THead i) = (i < g_k G)"
| "bounds G (TRes i) = (i < g_k G)"
| "bounds G TClosed = True"
| "bounds G TJunk = True"

fun settled_ok :: "ghost \<Rightarrow> ty \<Rightarrow> outcome \<Rightarrow> bool" where
  "settled_ok G TJunk out = True"
| "settled_ok G TClosed out = (out = Fulfilled VUndef \<and> g_cl G \<noteq> None \<and> length (g_vs G) < g_k G)"
| "settled_ok G ty out = (den G ty = Some out)"

fun consumer :: "ty \<Rightarrow> bool" where
  "consumer (TCur i) = True"
| "consumer (THead i) = True"
| "consumer (TRes i) = True"
| "consumer _ = False"

text \<open>
  Future \<open>p\<close> is the result of a continuation that is ready or waiting: a link (\<open>lk\<close>) or a
  continuation of \<^verbatim>\<open>Q.when\<close>.
\<close>

definition covered :: "machine \<Rightarrow> bool \<Rightarrow> pid \<Rightarrow> bool" where
  "covered m lk p =
     ((\<exists>h out. (h, p, out) \<in> set (queue m) \<and> (h = KLink) = lk)
      \<or> (\<exists>p' h. p' < length (heap m) \<and> (h, p) \<in> set (waiters (heap m ! p')) \<and> (h = KLink) = lk))"

text \<open>
  The invariant of the machine of a queue whose \<^verbatim>\<open>closed.promise\<close> is \<open>c\<close>. The futures in \<open>ex\<close>
  are those for which a call is about to register the continuation.
\<close>

definition minv :: "ghost \<Rightarrow> pid \<Rightarrow> (bool \<times> pid) set \<Rightarrow> machine \<Rightarrow> bool" where
  "minv G c ex m =
     (c < length (heap m)
      \<and> (\<forall>p \<ge> length (heap m). g_ty G p = TJunk)
      \<and> (\<forall>p < length (heap m). bounds G (g_ty G p))
      \<and> (\<forall>p < length (heap m). (g_ty G p = TClosed) = (p = c))
      \<and> (\<forall>p < length (heap m). \<forall>out. heap m ! p = Settled out \<longrightarrow> settled_ok G (g_ty G p) out)
      \<and> (\<forall>p < length (heap m). \<forall>(h, r) \<in> set (waiters (heap m ! p)).
            r < length (heap m) \<and> wt c (g_ty G p) h (g_ty G r))
      \<and> (\<forall>(h, r, out) \<in> set (queue m).
            r < length (heap m) \<and> (\<exists>ty. den G ty = Some out \<and> wt c ty h (g_ty G r)))
      \<and> (\<forall>p < length (heap m). \<forall>i. g_ty G p = TProd i \<longrightarrow>
            (\<exists>out. heap m ! p = Settled out) \<or> (\<exists>ws. heap m ! p = Pending ws \<and> den_cell G i = None))
      \<and> (\<forall>p < length (heap m). \<forall>ws. heap m ! p = Pending ws \<longrightarrow> consumer (g_ty G p) \<longrightarrow>
            (False, p) \<notin> ex \<longrightarrow> covered m False p)
      \<and> (\<forall>p < length (heap m). \<forall>t ws. heap m ! p = Following t ws \<longrightarrow>
            (True, p) \<notin> ex \<longrightarrow> covered m True p)
      \<and> (\<forall>p < length (heap m). \<forall>i r. g_ty G p = TRes i \<longrightarrow> heap m ! p = Settled (Rejected r) \<longrightarrow>
            heap m ! c = Settled (Fulfilled VUndef)))"

text \<open>The cells of the queue in the object store.\<close>

definition oinv :: "ghost \<Rightarrow> machine \<Rightarrow> bool" where
  "oinv G m =
     (length (g_cells G) = length (g_vs G)
      \<and> (\<forall>i < length (g_vs G). g_cells G ! i < length (objs m)
            \<and> get_prop (objs m ! (g_cells G ! i)) (Name ''head'') = g_vs G ! i
            \<and> (\<exists>t < length (heap m). get_prop (objs m ! (g_cells G ! i)) (Name ''tail'') = VPromise t
                  \<and> g_ty G t = TProd (Suc i)))
      \<and> (\<forall>r. g_cl G = Some r \<longrightarrow> g_end G < length (objs m)
            \<and> get_prop (objs m ! g_end G) (Name ''tail'') = VObj (g_end G)
            \<and> (\<exists>pr < length (heap m). get_prop (objs m ! g_end G) (Name ''head'') = VPromise pr
                  \<and> heap m ! pr = Settled (Rejected r)))
      \<and> (\<forall>v \<in> set (g_vs G). plain v))"

text \<open>Objects are not changed and settled futures stay as they are.\<close>

definition grows :: "machine \<Rightarrow> machine \<Rightarrow> bool" where
  "grows m m' =
     (length (objs m) \<le> length (objs m') \<and> (\<forall>a < length (objs m). objs m' ! a = objs m ! a)
      \<and> length (heap m) \<le> length (heap m')
      \<and> (\<forall>p < length (heap m). \<forall>out. heap m ! p = Settled out \<longrightarrow> heap m' ! p = Settled out))"

text \<open>
  A continuation makes ready only continuations of a greater rank, which bounds the number of
  turns that the event loop takes.
\<close>

fun rank :: "ty \<Rightarrow> nat" where
  "rank (TCur i) = 3 * i"
| "rank (THead i) = 3 * i + 1"
| "rank (TRes i) = 3 * i + 2"
| "rank _ = 0"

definition eff :: "ghost \<Rightarrow> pid \<Rightarrow> machine \<Rightarrow> machine \<Rightarrow> bool" where
  "eff G r m m' =
     (grows m m' \<and> (\<exists>new. queue m' = queue m @ new
        \<and> (\<forall>(h', r', o') \<in> set new. rank (g_ty G r) < rank (g_ty G r'))))"

definition resolved_to :: "machine \<Rightarrow> val \<Rightarrow> outcome \<Rightarrow> bool" where
  "resolved_to m v out =
     ((plain v \<and> out = Fulfilled v)
      \<or> (\<exists>p. v = VPromise p \<and> p < length (heap m) \<and> heap m ! p = Settled out))"

text \<open>The invariant of a session.\<close>

definition qinv :: "ghost \<Rightarrow> session \<Rightarrow> bool" where
  "qinv G s =
     (minv G (closed (vars s)) {} (mach s) \<and> oinv G (mach s)
      \<and> (\<exists>cur < length (heap (mach s)). ends_promise (vars s) = VPromise cur
            \<and> (g_ty G cur = TCur (g_k G) \<or> g_k G = 0 \<and> g_ty G cur = TProd 0))
      \<and> ends_resolve (vars s) < length (heap (mach s))
      \<and> (g_cl G = None \<longrightarrow> g_ty G (ends_resolve (vars s)) = TProd (length (g_vs G))
            \<and> (\<forall>p < length (heap (mach s)). g_ty G p = TProd (length (g_vs G)) \<longrightarrow> p = ends_resolve (vars s)))
      \<and> (g_cl G \<noteq> None \<longrightarrow> g_ty G (ends_resolve (vars s)) = TProd (length (g_vs G))
            \<or> g_ty G (ends_resolve (vars s)) = TJunk)
      \<and> length (results s) = g_k G
      \<and> (\<forall>j < g_k G. \<exists>g < length (heap (mach s)). results s ! j = VPromise g \<and> g_ty G g = TRes j))"

definition ghost0 :: ghost where
  "ghost0 = \<lparr>g_vs = [], g_cl = None, g_k = 0, g_cells = [], g_end = 0,
             g_ty = (\<lambda>p. if p = 0 then TProd 0 else if p = 1 then TClosed else TJunk)\<rparr>"

text \<open>
  The futures that \<^verbatim>\<open>get\<close> returned are those of role \<open>TRes\<close>, and \<^verbatim>\<open>closed\<close> is settled only
  when one of them is rejected.
\<close>

definition rinv :: "ghost \<Rightarrow> session \<Rightarrow> bool" where
  "rinv G s =
     ((\<forall>p < length (heap (mach s)). \<forall>i. g_ty G p = TRes i \<longrightarrow> results s ! i = VPromise p)
      \<and> ((\<exists>out. heap (mach s) ! closed (vars s) = Settled out) \<longrightarrow>
           (\<exists>p < length (heap (mach s)). \<exists>i r. g_ty G p = TRes i
               \<and> heap (mach s) ! p = Settled (Rejected r))))"

section \<open>Resolved structures\<close>








definition frame :: "pid \<Rightarrow> machine \<Rightarrow> machine \<Rightarrow> bool" where
  "frame r m m' =
     (objs m' = objs m \<and> length (heap m) \<le> length (heap m')
      \<and> (\<forall>q < length (heap m). q \<noteq> r \<longrightarrow> heap m' ! q = heap m ! q))"


text \<open>
  The futures \<open>s\<close>, \<open>s + 1\<close>, ... that the loop of \<^verbatim>\<open>consolidate\<close> chains on \<^verbatim>\<open>synchronize\<close>:
  each waits with the continuation of the next member.
\<close>

fun waiting_chain :: "pstate list \<Rightarrow> pid \<Rightarrow> handler list \<Rightarrow> (handler \<times> pid) list \<Rightarrow> bool" where
  "waiting_chain hp s [] fin = (s < length hp \<and> hp ! s = Pending fin)"
| "waiting_chain hp s (h # hs) fin =
     (s < length hp \<and> hp ! s = Pending [(h, Suc s)] \<and> waiting_chain hp (Suc s) hs fin)"


section \<open>Properties\<close>

lemma orders_complete: "distinct xs \<Longrightarrow> set xs = {0..<n} \<Longrightarrow> xs \<in> set (orders n)"
proof -
  assume d: "distinct xs" and s: "set xs = {0..<n}"
  have "length xs = card (set xs)" using d by (simp add: distinct_card)
  then have "length xs = n" using s by simp
  then show ?thesis using d s by (simp add: orders_def set_n_lists)
qed

lemma gaps_complete: "length gs = n \<Longrightarrow> set gs \<subseteq> set cs \<Longrightarrow> gs \<in> set (List.n_lists n cs)"
  by (simp add: set_n_lists)

subsection \<open>Ordered reduction\<close>

lemma reduceLeft_promise:
  "fst (reduceLeft (VObj 0) subtract (VNum 10) VUndef
          (snd (new_obj (array_of [VPromise 0, VPromise 1, VPromise 2]) (futures 3)))) = VPromise 3"
  by code_simp

lemma reduceLeft_all:
  "list_all reduceLeft_ok (List.product (orders 3) (List.n_lists 2 [0, 1, 2, 64]))"
  by code_simp

text \<open>
  C6. \<^verbatim>\<open>reduceLeft([Future(2), Future(3), Future(4)], subtract, 10)\<close>: the array holds the
  pending futures \<open>0\<close>, \<open>1\<close>, \<open>2\<close> and the call returns future \<open>3\<close>. In whatever order the
  three futures are settled, and whether the event loop takes no, one, two or all
  its turns between two settlements, the returned future is fulfilled with
  \<open>10 - 2 - 3 - 4 = 1\<close> once the event loop has run dry.
\<close>

theorem reduceLeft_any_settlement_order:
  assumes "distinct order" and "set order = {0, 1, 2}"
    and "length gaps = 2" and "set gaps \<subseteq> {0, 1, 2, 64}"
  shows "quiescent (run 64 (play (schedule [VNum 2, VNum 3, VNum 4] order gaps) reduceLeft_start))
    \<and> outcome_of (run 64 (play (schedule [VNum 2, VNum 3, VNum 4] order gaps) reduceLeft_start)) (VPromise 3)
        = Some (Fulfilled (VNum 1))"
proof -
  have "set order = {0..<3}"
    using assms(2) by auto
  with assms(1) have "order \<in> set (orders 3)"
    by (rule orders_complete)
  moreover have "gaps \<in> set (List.n_lists 2 [0, 1, 2, 64])"
    using assms(3,4) by (intro gaps_complete) auto
  ultimately have "reduceLeft_ok (order, gaps)"
    using reduceLeft_all by (auto simp: list_all_iff)
  then show ?thesis
    by (simp add: reduceLeft_ok_def Let_def)
qed

theorem reduceLeft_any_settlement_order_witness:
  "quiescent (run 64 (play (schedule [VNum 2, VNum 3, VNum 4] [2, 0, 1] [0, 64]) reduceLeft_start))
    \<and> outcome_of (run 64 (play (schedule [VNum 2, VNum 3, VNum 4] [2, 0, 1] [0, 64]) reduceLeft_start)) (VPromise 3)
        = Some (Fulfilled (VNum 1))"
proof -
  have "distinct [2, 0, 1 :: nat]" by simp
  moreover have "set [2, 0, 1 :: nat] = {0, 1, 2}" by auto
  moreover have "length [0, 64 :: nat] = 2" by simp
  moreover have "set [0, 64 :: nat] \<subseteq> {0, 1, 2, 64}" by simp
  ultimately show ?thesis by (rule reduceLeft_any_settlement_order)
qed

subsection \<open>Opportunistic reduction\<close>

text \<open>
  C7. \<^verbatim>\<open>reduce([Future(1), Future(2), Future(3), Future(4)], add)\<close> in the module as it stands
  raises a \<^verbatim>\<open>ReferenceError\<close> for \<^verbatim>\<open>UTIL\<close> and returns no future. The deferred \<^verbatim>\<open>reduction\<close>,
  future \<open>4\<close>, which the call made before it raised, stays pending when the four futures are
  fulfilled with \<open>1\<close>, \<open>2\<close>, \<open>3\<close>, \<open>4\<close> and the event loop has run dry, and the combining
  function is never called.
\<close>

theorem reduce_sum_raises:
  "fst sum_call = Inl (ReferenceError ''UTIL'')
   \<and> reduction (snd sum_call) = 4
   \<and> quiescent sum_run
   \<and> outcome_of sum_run (VPromise 0) = Some (Fulfilled (VNum 1))
   \<and> outcome_of sum_run (VPromise 3) = Some (Fulfilled (VNum 4))
   \<and> outcome_of sum_run (VPromise 4) = None
   \<and> calls sum_run = []"
  by code_simp

text \<open>
  C8. \<^verbatim>\<open>reduce([Q.reject("bad"), 2], add)\<close> in the module as it stands raises a
  \<^verbatim>\<open>ReferenceError\<close> for \<^verbatim>\<open>UTIL\<close> and returns no future. The deferred \<^verbatim>\<open>reduction\<close>, future
  \<open>1\<close>, is not rejected: it stays pending when the event loop has run dry.
\<close>

theorem reduce_rejected_element_raises:
  "outcome_of (snd spoiled_call) (VPromise 0) = Some (Rejected (VStr ''bad''))
   \<and> fst spoiled_call = Inl (ReferenceError ''UTIL'')
   \<and> reduction (snd spoiled_call) = 1
   \<and> quiescent (run 64 (snd spoiled_call))
   \<and> outcome_of (run 64 (snd spoiled_call)) (VPromise 1) = None"
  by code_simp

text \<open>
  C9. As \<^verbatim>\<open>qq.js\<close> stands, the name \<^verbatim>\<open>UTIL\<close> is unbound where \<^verbatim>\<open>reduce\<close> evaluates
  \<^verbatim>\<open>UTIL.map(...)\<close>: every call of \<^verbatim>\<open>reduce\<close> raises a \<^verbatim>\<open>ReferenceError\<close> to its caller
  instead of returning a future.
\<close>

theorem reduce_raises:
  "fst (reduce module_globals values callback accumulator that m) = Inl (ReferenceError ''UTIL'')"
  by (simp add: reduce_def module_globals_def Let_def split: prod.splits)

subsection \<open>Resolution\<close>

text \<open>
  C5. \<^verbatim>\<open>consolidate\<close> enumerates with \<^verbatim>\<open>for (var i in object)\<close> and has no
  \<^verbatim>\<open>hasOwnProperty\<close> guard: for the object \<open>heir\<close>, whose only own property is \<^verbatim>\<open>own\<close>
  and which inherits \<^verbatim>\<open>inh\<close> holding a future, both \<^verbatim>\<open>shallow\<close> and \<^verbatim>\<open>deep\<close> visit the
  inherited member, wait for its future and write the result back, as a new own
  property of the object.
\<close>

theorem consolidate_resolves_inherited:
  "own_keys heir = [Name ''own'']
   \<and> for_in heir = [Name ''own'', Name ''inh'']
   \<and> props (objs (heir_run Shallow) ! 0) = [(Name ''own'', VNum 1), (Name ''inh'', VNum 2)]
   \<and> props (objs (heir_run Deep) ! 0) = [(Name ''own'', VNum 1), (Name ''inh'', VNum 2)]
   \<and> outcome_of (heir_run Shallow) (VPromise 1) = Some (Fulfilled (VObj 0))
   \<and> outcome_of (heir_run Deep) (VPromise 1) = Some (Fulfilled (VObj 0))"
  by code_simp

subsection \<open>The queue\<close>

text \<open>
  The invariant holds when the queue is created and is kept by every call and by every turn of
  the event loop; the event loop comes to rest; and at rest every future of the consumer side
  whose outcome is determined has that outcome.
\<close>

lemma minv_cong: "heap m' = heap m \<Longrightarrow> queue m' = queue m \<Longrightarrow> minv G c ex m' = minv G c ex m"
  by (simp add: minv_def covered_def)

lemma waiters_simps [simp]:
  "waiters (Pending ws) = ws" "waiters (Following t ws) = ws" "waiters (Settled out) = []"
  by (simp_all add: waiters_def)

lemma minvI:
  assumes c_lt: "c < length (heap m)"
    and junk: "\<And>p. length (heap m) \<le> p \<Longrightarrow> g_ty G p = TJunk"
    and bnd: "\<And>p. p < length (heap m) \<Longrightarrow> bounds G (g_ty G p)"
    and cl: "\<And>p. p < length (heap m) \<Longrightarrow> (g_ty G p = TClosed) = (p = c)"
    and set: "\<And>p out. p < length (heap m) \<Longrightarrow> heap m ! p = Settled out \<Longrightarrow> settled_ok G (g_ty G p) out"
    and wait: "\<And>p h r. p < length (heap m) \<Longrightarrow> (h, r) \<in> set (waiters (heap m ! p)) \<Longrightarrow> r < length (heap m) \<and> wt c (g_ty G p) h (g_ty G r)"
    and task: "\<And>h r out. (h, r, out) \<in> set (queue m) \<Longrightarrow> r < length (heap m) \<and> (\<exists>ty. den G ty = Some out \<and> wt c ty h (g_ty G r))"
    and prod: "\<And>p i. p < length (heap m) \<Longrightarrow> g_ty G p = TProd i \<Longrightarrow> (\<exists>out. heap m ! p = Settled out) \<or> (\<exists>ws. heap m ! p = Pending ws \<and> den_cell G i = None)"
    and covp: "\<And>p ws. p < length (heap m) \<Longrightarrow> heap m ! p = Pending ws \<Longrightarrow> consumer (g_ty G p) \<Longrightarrow> (False, p) \<notin> ex \<Longrightarrow> covered m False p"
    and covf: "\<And>p t ws. p < length (heap m) \<Longrightarrow> heap m ! p = Following t ws \<Longrightarrow> (True, p) \<notin> ex \<Longrightarrow> covered m True p"
    and rej: "\<And>p i r. p < length (heap m) \<Longrightarrow> g_ty G p = TRes i \<Longrightarrow> heap m ! p = Settled (Rejected r) \<Longrightarrow> heap m ! c = Settled (Fulfilled VUndef)"
  shows "minv G c ex m"
  unfolding minv_def
  apply (intro conjI allI impI ballI)
            apply (rule c_lt)
           apply (erule junk)
          apply (erule bnd)
         apply (erule cl)
        apply (erule set, assumption)
       apply (clarify, erule wait, assumption)
      apply (clarify, erule task)
     apply (erule prod, assumption)
    apply (erule covp, assumption+)
   apply (erule covf, assumption+)
  apply (erule rej, assumption+)
  done

lemma minv_c_lt: "minv G c ex m \<Longrightarrow> c < length (heap m)"
  unfolding minv_def by (elim conjE) simp

lemma minv_junk: "minv G c ex m \<Longrightarrow> length (heap m) \<le> p \<Longrightarrow> g_ty G p = TJunk"
  unfolding minv_def by (elim conjE) simp

lemma minv_bnd: "minv G c ex m \<Longrightarrow> p < length (heap m) \<Longrightarrow> bounds G (g_ty G p)"
  unfolding minv_def by (elim conjE) simp

lemma minv_cl: "minv G c ex m \<Longrightarrow> p < length (heap m) \<Longrightarrow> (g_ty G p = TClosed) = (p = c)"
  unfolding minv_def by (elim conjE) simp

lemma minv_set: "minv G c ex m \<Longrightarrow> p < length (heap m) \<Longrightarrow> heap m ! p = Settled out \<Longrightarrow> settled_ok G (g_ty G p) out"
  unfolding minv_def by (elim conjE) simp

lemma minv_wait: "minv G c ex m \<Longrightarrow> p < length (heap m) \<Longrightarrow> (h, r) \<in> set (waiters (heap m ! p)) \<Longrightarrow> r < length (heap m) \<and> wt c (g_ty G p) h (g_ty G r)"
  unfolding minv_def by (elim conjE) (drule spec, drule (1) mp, drule (1) bspec, simp)

lemma minv_task: "minv G c ex m \<Longrightarrow> (h, r, out) \<in> set (queue m) \<Longrightarrow> r < length (heap m) \<and> (\<exists>ty. den G ty = Some out \<and> wt c ty h (g_ty G r))"
  unfolding minv_def by (elim conjE) (drule spec, drule (1) mp, drule (1) bspec, simp)

lemma minv_prod: "minv G c ex m \<Longrightarrow> p < length (heap m) \<Longrightarrow> g_ty G p = TProd i \<Longrightarrow> (\<exists>out. heap m ! p = Settled out) \<or> (\<exists>ws. heap m ! p = Pending ws \<and> den_cell G i = None)"
  unfolding minv_def by (elim conjE) simp

lemma minv_covp: "minv G c ex m \<Longrightarrow> p < length (heap m) \<Longrightarrow> heap m ! p = Pending ws \<Longrightarrow> consumer (g_ty G p) \<Longrightarrow> (False, p) \<notin> ex \<Longrightarrow> covered m False p"
  unfolding minv_def by (elim conjE) simp

lemma minv_covf: "minv G c ex m \<Longrightarrow> p < length (heap m) \<Longrightarrow> heap m ! p = Following t ws \<Longrightarrow> (True, p) \<notin> ex \<Longrightarrow> covered m True p"
  unfolding minv_def by (elim conjE) simp

lemma minv_rej: "minv G c ex m \<Longrightarrow> p < length (heap m) \<Longrightarrow> g_ty G p = TRes i \<Longrightarrow> heap m ! p = Settled (Rejected r) \<Longrightarrow> heap m ! c = Settled (Fulfilled VUndef)"
  unfolding minv_def by (elim conjE) (drule spec, drule (1) mp, simp)

lemma minv_dequeue:
  assumes inv: "minv G c ex m" and q: "queue m = (h, r, out) # rest"
    and h': "heap m' = heap m" and q': "queue m' = rest"
  shows "minv G c (insert (h = KLink, r) ex) m'"
proof (rule minvI)
  show "c < length (heap m')" using minv_c_lt [OF inv] h' by simp
  show "\<And>p. length (heap m') \<le> p \<Longrightarrow> g_ty G p = TJunk" using minv_junk [OF inv] h' by simp
  show "\<And>p. p < length (heap m') \<Longrightarrow> bounds G (g_ty G p)" using minv_bnd [OF inv] h' by simp
  show "\<And>p. p < length (heap m') \<Longrightarrow> (g_ty G p = TClosed) = (p = c)" using minv_cl [OF inv] h' by simp
  show "\<And>p out. p < length (heap m') \<Longrightarrow> heap m' ! p = Settled out \<Longrightarrow> settled_ok G (g_ty G p) out"
    using minv_set [OF inv] h' by simp
  show "\<And>p h r. p < length (heap m') \<Longrightarrow> (h, r) \<in> set (waiters (heap m' ! p)) \<Longrightarrow>
      r < length (heap m') \<and> wt c (g_ty G p) h (g_ty G r)"
    using minv_wait [OF inv] h' by simp
  show "r' < length (heap m') \<and> (\<exists>ty. den G ty = Some o' \<and> wt c ty h' (g_ty G r'))"
    if "(h', r', o') \<in> set (queue m')" for h' r' o'
    using minv_task [OF inv, of h' r' o'] that h' q q' by simp
  show "\<And>p i. p < length (heap m') \<Longrightarrow> g_ty G p = TProd i \<Longrightarrow>
      (\<exists>out. heap m' ! p = Settled out) \<or> (\<exists>ws. heap m' ! p = Pending ws \<and> den_cell G i = None)"
    using minv_prod [OF inv] h' by simp
  show "covered m' False p" if "p < length (heap m')" "heap m' ! p = Pending ws" "consumer (g_ty G p)"
    "(False, p) \<notin> insert (h = KLink, r) ex" for p ws
  proof -
    have "covered m False p" using minv_covp [OF inv] that h' by simp
    then show ?thesis using that(4) h' q q' unfolding covered_def by auto
  qed
  show "covered m' True p" if "p < length (heap m')" "heap m' ! p = Following t ws"
    "(True, p) \<notin> insert (h = KLink, r) ex" for p t ws
  proof -
    have "covered m True p" using minv_covf [OF inv] that h' by simp
    then show ?thesis using that(3) h' q q' unfolding covered_def by auto
  qed
  show "\<And>p i r. p < length (heap m') \<Longrightarrow> g_ty G p = TRes i \<Longrightarrow> heap m' ! p = Settled (Rejected r) \<Longrightarrow>
      heap m' ! c = Settled (Fulfilled VUndef)"
    using minv_rej [OF inv] h' by simp
qed

lemma covered_settle:
  assumes "covered m lk p" and "x < length (heap m)"
    and "heap m' = (heap m)[x := Settled out]"
    and "queue m' = queue m @ map (\<lambda>(h, r). (h, r, out)) (waiters (heap m ! x))"
  shows "covered m' lk p"
proof -
  from assms(1) consider
    (task) h o' where "(h, p, o') \<in> set (queue m)" "(h = KLink) = lk"
    | (wait) p' h where "p' < length (heap m)" "(h, p) \<in> set (waiters (heap m ! p'))" "(h = KLink) = lk"
    unfolding covered_def by blast
  then show ?thesis
  proof cases
    case task
    then show ?thesis unfolding covered_def using assms(4) by auto
  next
    case wait
    show ?thesis
    proof (cases "p' = x")
      case True
      with wait have "(h, p, out) \<in> set (queue m')"
        using assms(4) by force
      with wait show ?thesis unfolding covered_def by blast
    next
      case False
      with wait have "(h, p) \<in> set (waiters (heap m' ! p'))" "p' < length (heap m')"
        using assms(3) by simp_all
      with wait show ?thesis unfolding covered_def by blast
    qed
  qed
qed

lemma minv_settle:
  assumes inv: "minv G c ex m" and x: "x < length (heap m)"
    and uns: "\<And>o'. heap m ! x \<noteq> Settled o'"
    and ok: "settled_ok G (g_ty G x) out"
    and ws: "\<And>h r. (h, r) \<in> set (waiters (heap m ! x)) \<Longrightarrow> \<exists>ty. den G ty = Some out \<and> wt c ty h (g_ty G r)"
    and rj: "\<And>i r. g_ty G x = TRes i \<Longrightarrow> out = Rejected r \<Longrightarrow> heap m ! c = Settled (Fulfilled VUndef)"
    and h': "heap m' = (heap m)[x := Settled out]"
    and q': "queue m' = queue m @ map (\<lambda>(h, r). (h, r, out)) (waiters (heap m ! x))"
  shows "minv G c (ex - {(False, x), (True, x)}) m'"
proof (rule minvI)
  have cov: "\<And>lk p. covered m lk p \<Longrightarrow> covered m' lk p"
    using covered_settle [OF _ x h' q'] by blast
  have len: "length (heap m') = length (heap m)" using h' by simp
  have nth: "\<And>p. p < length (heap m) \<Longrightarrow> heap m' ! p = (if p = x then Settled out else heap m ! p)"
    using h' by (simp add: nth_list_update)
  show "c < length (heap m')" using minv_c_lt [OF inv] len by simp
  show "\<And>p. length (heap m') \<le> p \<Longrightarrow> g_ty G p = TJunk" using minv_junk [OF inv] len by simp
  show "\<And>p. p < length (heap m') \<Longrightarrow> bounds G (g_ty G p)" using minv_bnd [OF inv] len by simp
  show "\<And>p. p < length (heap m') \<Longrightarrow> (g_ty G p = TClosed) = (p = c)" using minv_cl [OF inv] len by simp
  show "settled_ok G (g_ty G p) o'" if "p < length (heap m')" "heap m' ! p = Settled o'" for p o'
    using that minv_set [OF inv, of p o'] ok len nth by (auto split: if_splits)
  show "r < length (heap m') \<and> wt c (g_ty G p) h (g_ty G r)"
    if "p < length (heap m')" "(h, r) \<in> set (waiters (heap m' ! p))" for p h r
    using that minv_wait [OF inv, of p h r] len nth by (auto split: if_splits)
  show "r < length (heap m') \<and> (\<exists>ty. den G ty = Some o' \<and> wt c ty h (g_ty G r))"
    if "(h, r, o') \<in> set (queue m')" for h r o'
  proof -
    from that q' consider "(h, r, o') \<in> set (queue m)" | "(h, r) \<in> set (waiters (heap m ! x))" "o' = out"
      by auto
    then show ?thesis
    proof cases
      case 1
      then show ?thesis using minv_task [OF inv] len by simp
    next
      case 2
      then show ?thesis using ws [of h r] minv_wait [OF inv x, of h r] len by simp
    qed
  qed
  show "(\<exists>out. heap m' ! p = Settled out) \<or> (\<exists>ws. heap m' ! p = Pending ws \<and> den_cell G i = None)"
    if "p < length (heap m')" "g_ty G p = TProd i" for p i
    using that minv_prod [OF inv, of p i] len nth by (auto split: if_splits)
  show "covered m' False p" if "p < length (heap m')" "heap m' ! p = Pending ws" "consumer (g_ty G p)"
    "(False, p) \<notin> ex - {(False, x), (True, x)}" for p ws
  proof -
    have "p \<noteq> x" using that len nth by auto
    then have "covered m False p" using minv_covp [OF inv, of p ws] that len nth by auto
    then show ?thesis by (rule cov)
  qed
  show "covered m' True p" if "p < length (heap m')" "heap m' ! p = Following t ws"
    "(True, p) \<notin> ex - {(False, x), (True, x)}" for p t ws
  proof -
    have "p \<noteq> x" using that len nth by auto
    then have "covered m True p" using minv_covf [OF inv, of p t ws] that len nth by auto
    then show ?thesis by (rule cov)
  qed
  show "heap m' ! c = Settled (Fulfilled VUndef)"
    if "p < length (heap m')" "g_ty G p = TRes i" "heap m' ! p = Settled (Rejected r)" for p i r
  proof -
    have old: "heap m ! c = Settled (Fulfilled VUndef)"
    proof (cases "p = x")
      case True
      then show ?thesis using that rj [of i r] len nth by auto
    next
      case False
      then show ?thesis using that minv_rej [OF inv, of p i r] len nth by auto
    qed
    then have "c \<noteq> x" using uns by auto
    then show ?thesis using old nth [of c] minv_c_lt [OF inv] by simp
  qed
qed

lemma covered_mono:
  assumes "covered m lk p" and "set (queue m) \<subseteq> set (queue m')"
    and "length (heap m) \<le> length (heap m')"
    and "\<And>p'. p' < length (heap m) \<Longrightarrow> set (waiters (heap m ! p')) \<subseteq> set (waiters (heap m' ! p'))"
  shows "covered m' lk p"
  using assms unfolding covered_def
  by (meson order_less_le_trans subsetD)

lemma minv_follow:
  assumes inv: "minv G c ex m" and x: "x < length (heap m)" and t: "t < length (heap m)"
    and xt: "x \<noteq> t"
    and hx: "heap m ! x = Pending ws" and ht: "heap m ! t = Pending ws'"
    and tx: "g_ty G x = TCur i" and tt: "g_ty G t = TProd i"
    and h': "heap m' = (heap m)[x := Following t ws, t := Pending (ws' @ [(KLink, x)])]"
    and q': "queue m' = queue m"
  shows "minv G c (ex - {(False, x), (True, x)}) m'"
proof (rule minvI)
  have len: "length (heap m') = length (heap m)" using h' by simp
  have nth: "\<And>p. p < length (heap m) \<Longrightarrow> heap m' ! p =
      (if p = t then Pending (ws' @ [(KLink, x)]) else if p = x then Following t ws else heap m ! p)"
    using h' by (simp add: nth_list_update)
  have wsub: "\<And>p'. p' < length (heap m) \<Longrightarrow> set (waiters (heap m ! p')) \<subseteq> set (waiters (heap m' ! p'))"
    using nth hx ht by auto
  have cov: "\<And>lk p. covered m lk p \<Longrightarrow> covered m' lk p"
    by (rule covered_mono) (use q' len wsub in auto)
  show "c < length (heap m')" using minv_c_lt [OF inv] len by simp
  show "\<And>p. length (heap m') \<le> p \<Longrightarrow> g_ty G p = TJunk" using minv_junk [OF inv] len by simp
  show "\<And>p. p < length (heap m') \<Longrightarrow> bounds G (g_ty G p)" using minv_bnd [OF inv] len by simp
  show "\<And>p. p < length (heap m') \<Longrightarrow> (g_ty G p = TClosed) = (p = c)" using minv_cl [OF inv] len by simp
  show "settled_ok G (g_ty G p) o'" if "p < length (heap m')" "heap m' ! p = Settled o'" for p o'
    using that minv_set [OF inv, of p o'] len nth by (auto split: if_splits)
  show "r < length (heap m') \<and> wt c (g_ty G p) h (g_ty G r)"
    if "p < length (heap m')" "(h, r) \<in> set (waiters (heap m' ! p))" for p h r
    using that minv_wait [OF inv, of p h r] len nth hx ht x tx tt by (auto split: if_splits)
  show "r < length (heap m') \<and> (\<exists>ty. den G ty = Some o' \<and> wt c ty h (g_ty G r))"
    if "(h, r, o') \<in> set (queue m')" for h r o'
    using that minv_task [OF inv, of h r o'] len q' by simp
  show "(\<exists>out. heap m' ! p = Settled out) \<or> (\<exists>ws. heap m' ! p = Pending ws \<and> den_cell G j = None)"
    if "p < length (heap m')" "g_ty G p = TProd j" for p j
    using that minv_prod [OF inv, of p j] len nth ht tx by (auto split: if_splits)
  show "covered m' False p" if "p < length (heap m')" "heap m' ! p = Pending ws''" "consumer (g_ty G p)"
    "(False, p) \<notin> ex - {(False, x), (True, x)}" for p ws''
  proof -
    have "p \<noteq> x" "p \<noteq> t" using that len nth tt by (auto split: if_splits)
    then have "covered m False p" using minv_covp [OF inv, of p ws''] that len nth by auto
    then show ?thesis by (rule cov)
  qed
  show "covered m' True p" if "p < length (heap m')" "heap m' ! p = Following t' ws''"
    "(True, p) \<notin> ex - {(False, x), (True, x)}" for p t' ws''
  proof (cases "p = x")
    case True
    have "(KLink, x) \<in> set (waiters (heap m' ! t))" using nth [OF t] by simp
    then show ?thesis unfolding covered_def using True t len by auto
  next
    case False
    then have "covered m True p" using minv_covf [OF inv, of p t' ws''] that len nth by (auto split: if_splits)
    then show ?thesis by (rule cov)
  qed
  show "heap m' ! c = Settled (Fulfilled VUndef)"
    if "p < length (heap m')" "g_ty G p = TRes j" "heap m' ! p = Settled (Rejected r)" for p j r
  proof -
    have "heap m ! c = Settled (Fulfilled VUndef)"
      using that minv_rej [OF inv, of p j r] len nth by (auto split: if_splits)
    then show ?thesis using nth [of c] minv_c_lt [OF inv] hx ht by auto
  qed
qed

lemma minv_alloc_junk:
  assumes inv: "minv G c ex m"
    and st: "waiters st = []" "\<And>t ws. st \<noteq> Following t ws"
    and h': "heap m' = heap m @ [st]" and q': "queue m' = queue m"
  shows "minv G c ex m'"
proof (rule minvI)
  have len: "length (heap m') = Suc (length (heap m))" using h' by simp
  have nth: "\<And>p. p < length (heap m) \<Longrightarrow> heap m' ! p = heap m ! p"
    using h' by (simp add: nth_append)
  have new: "heap m' ! length (heap m) = st" using h' by simp
  have jt: "g_ty G (length (heap m)) = TJunk" using minv_junk [OF inv] by simp
  have cases: "\<And>p. p < length (heap m') \<Longrightarrow> p < length (heap m) \<or> p = length (heap m)"
    using len by auto
  have cov: "\<And>lk p. covered m lk p \<Longrightarrow> covered m' lk p"
    by (rule covered_mono) (use q' len nth in auto)
  show "c < length (heap m')" using minv_c_lt [OF inv] len by simp
  show "\<And>p. length (heap m') \<le> p \<Longrightarrow> g_ty G p = TJunk" using minv_junk [OF inv] len by simp
  show "bounds G (g_ty G p)" if "p < length (heap m')" for p
    using cases [OF that] minv_bnd [OF inv, of p] jt by auto
  show "(g_ty G p = TClosed) = (p = c)" if "p < length (heap m')" for p
    using cases [OF that] minv_cl [OF inv, of p] jt minv_c_lt [OF inv] by auto
  show "settled_ok G (g_ty G p) o'" if "p < length (heap m')" "heap m' ! p = Settled o'" for p o'
    using cases [OF that(1)] that(2) minv_set [OF inv, of p o'] jt nth by auto
  show "r < length (heap m') \<and> wt c (g_ty G p) h (g_ty G r)"
    if "p < length (heap m')" "(h, r) \<in> set (waiters (heap m' ! p))" for p h r
    using cases [OF that(1)] that(2) minv_wait [OF inv, of p h r] len nth new st by auto
  show "r < length (heap m') \<and> (\<exists>ty. den G ty = Some o' \<and> wt c ty h (g_ty G r))"
    if "(h, r, o') \<in> set (queue m')" for h r o'
    using that minv_task [OF inv, of h r o'] len q' by auto
  show "(\<exists>out. heap m' ! p = Settled out) \<or> (\<exists>ws. heap m' ! p = Pending ws \<and> den_cell G j = None)"
    if "p < length (heap m')" "g_ty G p = TProd j" for p j
    using cases [OF that(1)] that(2) minv_prod [OF inv, of p j] jt nth by auto
  show "covered m' False p" if "p < length (heap m')" "heap m' ! p = Pending ws''" "consumer (g_ty G p)"
    "(False, p) \<notin> ex" for p ws''
  proof -
    have "p < length (heap m)" using cases [OF that(1)] that(3) jt by auto
    then have "covered m False p" using minv_covp [OF inv, of p ws''] that nth by auto
    then show ?thesis by (rule cov)
  qed
  show "covered m' True p" if "p < length (heap m')" "heap m' ! p = Following t' ws''"
    "(True, p) \<notin> ex" for p t' ws''
  proof -
    have "p < length (heap m)" using cases [OF that(1)] that(2) new st by auto
    then have "covered m True p" using minv_covf [OF inv, of p t' ws''] that nth by auto
    then show ?thesis by (rule cov)
  qed
  show "heap m' ! c = Settled (Fulfilled VUndef)"
    if "p < length (heap m')" "g_ty G p = TRes j" "heap m' ! p = Settled (Rejected r)" for p j r
  proof -
    have "p < length (heap m)" using cases [OF that(1)] that(2) jt by auto
    then have "heap m ! c = Settled (Fulfilled VUndef)"
      using that minv_rej [OF inv, of p j r] nth by auto
    then show ?thesis using nth [of c] minv_c_lt [OF inv] by auto
  qed
qed

lemma ghost_ty_upd [simp]:
  "den_cell (G\<lparr>g_ty := f\<rparr>) i = den_cell G i"
  "den_head (G\<lparr>g_ty := f\<rparr>) i = den_head G i"
  by (simp_all add: den_cell_def den_head_def split: option.splits)

lemma ghost_ty_upd2 [simp]:
  "den (G\<lparr>g_ty := f\<rparr>) t = den G t"
  "bounds (G\<lparr>g_ty := f\<rparr>) t = bounds G t"
  "settled_ok (G\<lparr>g_ty := f\<rparr>) t out = settled_ok G t out"
  by (cases t; simp)+

lemma ghost_k_upd [simp]:
  "den_cell (G\<lparr>g_k := k\<rparr>) i = den_cell G i"
  "den_head (G\<lparr>g_k := k\<rparr>) i = den_head G i"
  by (simp_all add: den_cell_def den_head_def split: option.splits)

lemma ghost_k_upd2 [simp]:
  "den (G\<lparr>g_k := k\<rparr>) t = den G t"
  by (cases t; simp)

lemma add_waiter_simps [simp]:
  "add_waiter w (Pending ws) = Pending (ws @ [w])"
  "add_waiter w (Following t ws) = Following t (ws @ [w])"
  "add_waiter w (Settled out) = Settled out"
  by (simp_all add: add_waiter_def)

lemma q_when_promise:
  assumes "p < length (heap m)"
  shows "fst (q_when (VPromise p) h m) = VPromise (length (heap m))"
    and "objs (snd (q_when (VPromise p) h m)) = objs m"
    and "heap m ! p = Settled out \<Longrightarrow> heap (snd (q_when (VPromise p) h m)) = heap m @ [Pending []]"
    and "heap m ! p = Settled out \<Longrightarrow>
           queue (snd (q_when (VPromise p) h m)) = queue m @ [(h, length (heap m), out)]"
    and "(\<And>o'. heap m ! p \<noteq> Settled o') \<Longrightarrow>
           heap (snd (q_when (VPromise p) h m)) =
             (heap m @ [Pending []])[p := add_waiter (h, length (heap m)) (heap m ! p)]"
    and "(\<And>o'. heap m ! p \<noteq> Settled o') \<Longrightarrow> queue (snd (q_when (VPromise p) h m)) = queue m"
  using assms
  by (auto simp: q_when_def q_defer_def new_promise_def subscribe_def Let_def nth_append
      split: pstate.splits)

lemma minv_when:
  assumes inv: "minv G c ex m" and p: "p < length (heap m)"
    and wt: "wt c (g_ty G p) h ty" and ty: "consumer ty" "bounds G ty" and hl: "h \<noteq> KLink"
  shows "minv (G\<lparr>g_ty := (g_ty G)(length (heap m) := ty)\<rparr>) c ex (snd (q_when (VPromise p) h m))"
    (is "minv ?G c ex ?m'")
proof -
  let ?n = "length (heap m)"
  have gty: "\<And>q. g_ty ?G q = (if q = ?n then ty else g_ty G q)" by simp
  have tyc: "ty \<noteq> TClosed" "ty \<noteq> TJunk" "\<And>j. ty \<noteq> TProd j" using ty(1) by auto
  have cn: "c < ?n" by (rule minv_c_lt [OF inv])
  show ?thesis
  proof (cases "\<exists>out. heap m ! p = Settled out")
    case True
    then obtain out where hp: "heap m ! p = Settled out" by blast
    have h': "heap ?m' = heap m @ [Pending []]" and q': "queue ?m' = queue m @ [(h, ?n, out)]"
      using q_when_promise [OF p] hp by auto
    have len: "length (heap ?m') = Suc ?n" using h' by simp
    have nth: "\<And>q. q < ?n \<Longrightarrow> heap ?m' ! q = heap m ! q" using h' by (simp add: nth_append)
    have new: "heap ?m' ! ?n = Pending []" using h' by simp
    have cases: "\<And>q. q < length (heap ?m') \<Longrightarrow> q < ?n \<or> q = ?n" using len by auto
    have cov: "\<And>lk q. covered m lk q \<Longrightarrow> covered ?m' lk q"
      by (rule covered_mono) (use q' len nth in auto)
    have dn: "den G (g_ty G p) = Some out"
      using minv_set [OF inv p hp] wt by (cases "g_ty G p") auto
    show ?thesis
    proof (rule minvI)
      show "c < length (heap ?m')" using cn len by simp
      show "\<And>q. length (heap ?m') \<le> q \<Longrightarrow> g_ty ?G q = TJunk" using minv_junk [OF inv] len by simp
      show "bounds ?G (g_ty ?G q)" if "q < length (heap ?m')" for q
        using cases [OF that] minv_bnd [OF inv, of q] ty by auto
      show "(g_ty ?G q = TClosed) = (q = c)" if "q < length (heap ?m')" for q
        using cases [OF that] minv_cl [OF inv, of q] tyc cn by auto
      show "settled_ok ?G (g_ty ?G q) o'" if "q < length (heap ?m')" "heap ?m' ! q = Settled o'" for q o'
        using cases [OF that(1)] that(2) minv_set [OF inv, of q o'] nth new by auto
      show "r < length (heap ?m') \<and> wt c (g_ty ?G q) h' (g_ty ?G r)"
        if "q < length (heap ?m')" "(h', r) \<in> set (waiters (heap ?m' ! q))" for q h' r
        using cases [OF that(1)] that(2) minv_wait [OF inv, of q h' r] len nth new by auto
      show "r < length (heap ?m') \<and> (\<exists>t. den ?G t = Some o' \<and> wt c t h' (g_ty ?G r))"
        if "(h', r, o') \<in> set (queue ?m')" for h' r o'
      proof -
        from that q' consider "(h', r, o') \<in> set (queue m)" | "h' = h" "r = ?n" "o' = out" by auto
        then show ?thesis
        proof cases
          case 1
          then show ?thesis using minv_task [OF inv, of h' r o'] len by auto
        next
          case 2
          then show ?thesis using dn wt len by auto
        qed
      qed
      show "(\<exists>out. heap ?m' ! q = Settled out) \<or> (\<exists>ws. heap ?m' ! q = Pending ws \<and> den_cell ?G j = None)"
        if "q < length (heap ?m')" "g_ty ?G q = TProd j" for q j
        using cases [OF that(1)] that(2) minv_prod [OF inv, of q j] tyc nth by auto
      show "covered ?m' False q" if "q < length (heap ?m')" "heap ?m' ! q = Pending ws''"
        "consumer (g_ty ?G q)" "(False, q) \<notin> ex" for q ws''
      proof (cases "q = ?n")
        case True
        then show ?thesis unfolding covered_def using q' hl by auto
      next
        case False
        then have "q < ?n" using cases [OF that(1)] by simp
        then have "covered m False q" using minv_covp [OF inv, of q ws''] that nth by auto
        then show ?thesis by (rule cov)
      qed
      show "covered ?m' True q" if "q < length (heap ?m')" "heap ?m' ! q = Following t' ws''"
        "(True, q) \<notin> ex" for q t' ws''
      proof -
        have "q < ?n" using cases [OF that(1)] that(2) new by auto
        then have "covered m True q" using minv_covf [OF inv, of q t' ws''] that nth by auto
        then show ?thesis by (rule cov)
      qed
      show "heap ?m' ! c = Settled (Fulfilled VUndef)"
        if "q < length (heap ?m')" "g_ty ?G q = TRes j" "heap ?m' ! q = Settled (Rejected r)" for q j r
      proof -
        have "q < ?n" using cases [OF that(1)] that(3) new by auto
        then have "heap m ! c = Settled (Fulfilled VUndef)"
          using that minv_rej [OF inv, of q j r] nth by auto
        then show ?thesis using nth [OF cn] by simp
      qed
    qed
  next
    case False
    then have uns: "\<And>o'. heap m ! p \<noteq> Settled o'" by blast
    have h': "heap ?m' = (heap m @ [Pending []])[p := add_waiter (h, ?n) (heap m ! p)]"
      and q': "queue ?m' = queue m"
      using q_when_promise [OF p] uns by auto
    have len: "length (heap ?m') = Suc ?n" using h' by simp
    have nth: "\<And>q. q < ?n \<Longrightarrow> heap ?m' ! q = (if q = p then add_waiter (h, ?n) (heap m ! p) else heap m ! q)"
      using h' by (simp add: nth_append nth_list_update)
    have new: "heap ?m' ! ?n = Pending []" using h' p by (simp add: nth_list_update)
    have cases: "\<And>q. q < length (heap ?m') \<Longrightarrow> q < ?n \<or> q = ?n" using len by auto
    have wp: "waiters (heap ?m' ! p) = waiters (heap m ! p) @ [(h, ?n)]"
      using nth [OF p] uns by (cases "heap m ! p") auto
    have wsub: "\<And>q. q < ?n \<Longrightarrow> set (waiters (heap m ! q)) \<subseteq> set (waiters (heap ?m' ! q))"
      using nth wp by auto
    have cov: "\<And>lk q. covered m lk q \<Longrightarrow> covered ?m' lk q"
      by (rule covered_mono) (use q' len wsub in auto)
    have shape: "\<And>q o'. q < ?n \<Longrightarrow> heap ?m' ! q = Settled o' \<Longrightarrow> heap m ! q = Settled o'"
      "\<And>q ws. q < ?n \<Longrightarrow> heap ?m' ! q = Pending ws \<Longrightarrow> \<exists>ws0. heap m ! q = Pending ws0"
      "\<And>q t ws. q < ?n \<Longrightarrow> heap ?m' ! q = Following t ws \<Longrightarrow> \<exists>ws0. heap m ! q = Following t ws0"
      using nth by (auto split: if_splits simp: add_waiter_def split: pstate.splits)
    show ?thesis
    proof (rule minvI)
      show "c < length (heap ?m')" using cn len by simp
      show "\<And>q. length (heap ?m') \<le> q \<Longrightarrow> g_ty ?G q = TJunk" using minv_junk [OF inv] len by simp
      show "bounds ?G (g_ty ?G q)" if "q < length (heap ?m')" for q
        using cases [OF that] minv_bnd [OF inv, of q] ty by auto
      show "(g_ty ?G q = TClosed) = (q = c)" if "q < length (heap ?m')" for q
        using cases [OF that] minv_cl [OF inv, of q] tyc cn by auto
      show "settled_ok ?G (g_ty ?G q) o'" if "q < length (heap ?m')" "heap ?m' ! q = Settled o'" for q o'
        using cases [OF that(1)] that(2) minv_set [OF inv, of q o'] shape(1) [of q o'] new by auto
      show "r < length (heap ?m') \<and> wt c (g_ty ?G q) h' (g_ty ?G r)"
        if "q < length (heap ?m')" "(h', r) \<in> set (waiters (heap ?m' ! q))" for q h' r
      proof -
        have qn: "q < ?n" using cases [OF that(1)] that(2) new by auto
        show ?thesis
        proof (cases "q = p \<and> (h', r) = (h, ?n)")
          case True
          then show ?thesis using wt len p by auto
        next
          case False
          then have "(h', r) \<in> set (waiters (heap m ! q))"
            using that(2) nth [OF qn] wp by (auto split: if_splits)
          then show ?thesis using minv_wait [OF inv qn, of h' r] len qn by auto
        qed
      qed
      show "r < length (heap ?m') \<and> (\<exists>t. den ?G t = Some o' \<and> wt c t h' (g_ty ?G r))"
        if "(h', r, o') \<in> set (queue ?m')" for h' r o'
        using that minv_task [OF inv, of h' r o'] len q' by auto
      show "(\<exists>out. heap ?m' ! q = Settled out) \<or> (\<exists>ws. heap ?m' ! q = Pending ws \<and> den_cell ?G j = None)"
        if "q < length (heap ?m')" "g_ty ?G q = TProd j" for q j
      proof -
        have qn: "q < ?n" using cases [OF that(1)] that(2) tyc by auto
        then show ?thesis using that(2) minv_prod [OF inv qn, of j] nth [OF qn] by auto
      qed
      show "covered ?m' False q" if "q < length (heap ?m')" "heap ?m' ! q = Pending ws''"
        "consumer (g_ty ?G q)" "(False, q) \<notin> ex" for q ws''
      proof (cases "q = ?n")
        case True
        have "(h, ?n) \<in> set (waiters (heap ?m' ! p))" using wp by simp
        moreover have "p < length (heap ?m')" using p len by simp
        ultimately have "\<exists>p' h'. p' < length (heap ?m') \<and> (h', q) \<in> set (waiters (heap ?m' ! p')) \<and> (h' = KLink) = False"
          using True hl by blast
        then show ?thesis unfolding covered_def by blast
      next
        case False
        then have qn: "q < ?n" using cases [OF that(1)] by simp
        then have "covered m False q"
          using minv_covp [OF inv qn] that shape(2) [OF qn that(2)] by auto
        then show ?thesis by (rule cov)
      qed
      show "covered ?m' True q" if "q < length (heap ?m')" "heap ?m' ! q = Following t' ws''"
        "(True, q) \<notin> ex" for q t' ws''
      proof -
        have qn: "q < ?n" using cases [OF that(1)] that(2) new by auto
        then have "covered m True q"
          using minv_covf [OF inv qn] that shape(3) [OF qn that(2)] by auto
        then show ?thesis by (rule cov)
      qed
      show "heap ?m' ! c = Settled (Fulfilled VUndef)"
        if "q < length (heap ?m')" "g_ty ?G q = TRes j" "heap ?m' ! q = Settled (Rejected r)" for q j r
      proof -
        have qn: "q < ?n" using cases [OF that(1)] that(3) new by auto
        then have "heap m ! c = Settled (Fulfilled VUndef)"
          using that minv_rej [OF inv qn, of j r] shape(1) [OF qn that(3)] by auto
        then show ?thesis using nth [OF cn] by auto
      qed
    qed
  qed
qed

lemma minv_k:
  assumes inv: "minv G c ex m"
  shows "minv (G\<lparr>g_k := Suc (g_k G)\<rparr>) c ex m" (is "minv ?G c ex m")
proof (rule minvI)
  have b: "\<And>t. bounds G t \<Longrightarrow> bounds ?G t" by (case_tac t) auto
  have s: "\<And>t out. settled_ok G t out \<Longrightarrow> settled_ok ?G t out" by (case_tac t) auto
  show "c < length (heap m)" by (rule minv_c_lt [OF inv])
  show "\<And>p. length (heap m) \<le> p \<Longrightarrow> g_ty ?G p = TJunk" using minv_junk [OF inv] by simp
  show "\<And>p. p < length (heap m) \<Longrightarrow> bounds ?G (g_ty ?G p)" using minv_bnd [OF inv] b by simp
  show "\<And>p. p < length (heap m) \<Longrightarrow> (g_ty ?G p = TClosed) = (p = c)" using minv_cl [OF inv] by simp
  show "\<And>p out. p < length (heap m) \<Longrightarrow> heap m ! p = Settled out \<Longrightarrow> settled_ok ?G (g_ty ?G p) out"
    using minv_set [OF inv] s by simp
  show "\<And>p h r. p < length (heap m) \<Longrightarrow> (h, r) \<in> set (waiters (heap m ! p)) \<Longrightarrow>
      r < length (heap m) \<and> wt c (g_ty ?G p) h (g_ty ?G r)"
    using minv_wait [OF inv] by simp
  show "\<And>h r out. (h, r, out) \<in> set (queue m) \<Longrightarrow>
      r < length (heap m) \<and> (\<exists>ty. den ?G ty = Some out \<and> wt c ty h (g_ty ?G r))"
    using minv_task [OF inv] by simp
  show "\<And>p i. p < length (heap m) \<Longrightarrow> g_ty ?G p = TProd i \<Longrightarrow>
      (\<exists>out. heap m ! p = Settled out) \<or> (\<exists>ws. heap m ! p = Pending ws \<and> den_cell ?G i = None)"
    using minv_prod [OF inv] by simp
  show "\<And>p ws. p < length (heap m) \<Longrightarrow> heap m ! p = Pending ws \<Longrightarrow> consumer (g_ty ?G p) \<Longrightarrow>
      (False, p) \<notin> ex \<Longrightarrow> covered m False p"
    using minv_covp [OF inv] by simp
  show "\<And>p t ws. p < length (heap m) \<Longrightarrow> heap m ! p = Following t ws \<Longrightarrow> (True, p) \<notin> ex \<Longrightarrow> covered m True p"
    using minv_covf [OF inv] by simp
  show "\<And>p i r. p < length (heap m) \<Longrightarrow> g_ty ?G p = TRes i \<Longrightarrow> heap m ! p = Settled (Rejected r) \<Longrightarrow>
      heap m ! c = Settled (Fulfilled VUndef)"
    using minv_rej [OF inv] by simp
qed

lemma minv_produce:
  assumes inv: "minv G c {} m" and e: "e < length (heap m)"
    and te: "g_ty G e = TProd (length (g_vs G))"
    and uniq: "\<And>p. p < length (heap m) \<Longrightarrow> g_ty G p = TProd (length (g_vs G)) \<Longrightarrow> p = e"
    and op: "g_cl G = None"
    and k': "g_k G' = g_k G" and vs': "length (g_vs G) \<le> length (g_vs G')"
    and grows: "\<And>t o'. den G t = Some o' \<Longrightarrow> den G' t = Some o'"
    and dn: "den_cell G' (length (g_vs G)) = Some out"
    and ty': "\<And>q. g_ty G' q = (if q = length (heap m) then tn else g_ty G q)"
    and tn: "tn = TJunk \<or> (\<exists>j. tn = TProd j \<and> st = Pending [] \<and> den_cell G' j = None \<and> j \<le> length (g_vs G'))"
    and st: "waiters st = []" "\<And>t ws. st \<noteq> Following t ws"
    and h': "heap m' = (heap m @ [st])[e := Settled out]"
    and q': "queue m' = queue m @ map (\<lambda>(h, r). (h, r, out)) (waiters (heap m ! e))"
  shows "minv G' c {} m'"
proof (rule minvI)
  let ?n = "length (heap m)"
  let ?m1 = "m\<lparr>heap := heap m @ [st]\<rparr>"
  have len: "length (heap m') = Suc ?n" using h' by simp
  have nth: "\<And>q. q < ?n \<Longrightarrow> heap m' ! q = (if q = e then Settled out else heap m ! q)"
    using h' by (simp add: nth_append nth_list_update)
  have new: "heap m' ! ?n = st" using h' e by (simp add: nth_list_update)
  have cases: "\<And>q. q < length (heap m') \<Longrightarrow> q < ?n \<or> q = ?n" using len by auto
  have cn: "c < ?n" by (rule minv_c_lt [OF inv])
  have dnone: "den_cell G (length (g_vs G)) = None" using op by (simp add: den_cell_def)
  obtain ws where he: "heap m ! e = Pending ws"
    using minv_prod [OF inv e te] minv_set [OF inv e] te dnone by auto
  have ce: "c \<noteq> e" using minv_cl [OF inv e] te by auto
  have nset: "\<And>o'. heap m ! c \<noteq> Settled o'"
    using minv_set [OF inv cn] minv_cl [OF inv cn] op by auto
  have sok: "\<And>q o'. q < ?n \<Longrightarrow> heap m ! q = Settled o' \<Longrightarrow> settled_ok G' (g_ty G q) o'"
  proof -
    fix q o' assume q: "q < ?n" and hq: "heap m ! q = Settled o'"
    have "q \<noteq> c" using nset hq by auto
    then have "g_ty G q \<noteq> TClosed" using minv_cl [OF inv q] by simp
    then show "settled_ok G' (g_ty G q) o'"
      using minv_set [OF inv q hq] grows [of "g_ty G q" o'] by (cases "g_ty G q") auto
  qed
  have tnc: "tn \<noteq> TClosed" "\<not> consumer tn" "\<And>j. tn \<noteq> TRes j" using tn by auto
  have cov: "covered m' lk p" if "covered m lk p" for lk p
  proof -
    have "covered ?m1 lk p" by (rule covered_mono [OF that]) (auto simp: nth_append)
    then show ?thesis
      by (rule covered_settle [where x = e and out = out]) (use e h' q' in \<open>auto simp: nth_append\<close>)
  qed
  show "c < length (heap m')" using cn len by simp
  show "\<And>q. length (heap m') \<le> q \<Longrightarrow> g_ty G' q = TJunk" using minv_junk [OF inv] len ty' by simp
  show "bounds G' (g_ty G' q)" if "q < length (heap m')" for q
  proof -
    have b: "\<And>t. bounds G t \<Longrightarrow> bounds G' t" using k' vs' by (case_tac t) auto
    show ?thesis using cases [OF that] minv_bnd [OF inv, of q] b tn ty' by auto
  qed
  show "(g_ty G' q = TClosed) = (q = c)" if "q < length (heap m')" for q
    using cases [OF that] minv_cl [OF inv, of q] tnc cn ty' by auto
  show "settled_ok G' (g_ty G' q) o'" if "q < length (heap m')" "heap m' ! q = Settled o'" for q o'
  proof -
    note qlt = cases [OF that(1)]
    consider "q = ?n" | "q = e" | "q < ?n" "q \<noteq> e" using qlt by auto
    then show ?thesis
    proof cases
      case 1
      then show ?thesis using that(2) new tn ty' by auto
    next
      case 2
      then show ?thesis using that(2) nth [OF e] te dn ty' e by auto
    next
      case 3
      then show ?thesis using that(2) nth [of q] sok [of q o'] ty' by auto
    qed
  qed
  show "r < length (heap m') \<and> wt c (g_ty G' q) h (g_ty G' r)"
    if "q < length (heap m')" "(h, r) \<in> set (waiters (heap m' ! q))" for q h r
  proof -
    have qn: "q < ?n" "q \<noteq> e" using cases [OF that(1)] that(2) new st nth [OF e] by auto
    then have "(h, r) \<in> set (waiters (heap m ! q))" using that(2) nth [of q] by auto
    then show ?thesis using minv_wait [OF inv qn(1), of h r] len qn ty' by auto
  qed
  show "r < length (heap m') \<and> (\<exists>t. den G' t = Some o' \<and> wt c t h (g_ty G' r))"
    if "(h, r, o') \<in> set (queue m')" for h r o'
  proof -
    from that q' he consider "(h, r, o') \<in> set (queue m)" | "(h, r) \<in> set ws" "o' = out" by auto
    then show ?thesis
    proof cases
      case 1
      then show ?thesis using minv_task [OF inv, of h r o'] grows len ty' by auto
    next
      case 2
      then have "r < ?n \<and> wt c (TProd (length (g_vs G))) h (g_ty G r)"
        using minv_wait [OF inv e, of h r] he te by auto
      moreover have "den G' (TProd (length (g_vs G))) = Some o'" using dn 2 by simp
      ultimately show ?thesis using len ty' by (intro conjI exI [of _ "TProd (length (g_vs G))"]) auto
    qed
  qed
  show "(\<exists>out. heap m' ! q = Settled out) \<or> (\<exists>ws. heap m' ! q = Pending ws \<and> den_cell G' j = None)"
    if "q < length (heap m')" "g_ty G' q = TProd j" for q j
  proof -
    note qlt = cases [OF that(1)]
    consider "q = ?n" | "q = e" | "q < ?n" "q \<noteq> e" using qlt by auto
    then show ?thesis
    proof cases
      case 1
      then show ?thesis using that(2) new tn ty' by auto
    next
      case 2
      then show ?thesis using nth [OF e] by auto
    next
      case 3
      then have tq: "g_ty G q = TProd j" using that(2) ty' by auto
      have "\<exists>o'. heap m ! q = Settled o'"
      proof (rule ccontr)
        assume "\<not> ?thesis"
        then have "den_cell G j = None" using minv_prod [OF inv 3(1) tq] by auto
        then have "length (g_vs G) \<le> j" by (auto simp: den_cell_def split: if_splits)
        moreover have "j \<le> length (g_vs G)" using minv_bnd [OF inv 3(1)] tq by auto
        ultimately show False using uniq [OF 3(1)] tq 3(2) by auto
      qed
      then show ?thesis using nth [OF 3(1)] 3(2) by auto
    qed
  qed
  show "covered m' False q" if "q < length (heap m')" "heap m' ! q = Pending ws''"
    "consumer (g_ty G' q)" "(False, q) \<notin> {}" for q ws''
  proof -
    have qn: "q < ?n" "q \<noteq> e" using cases [OF that(1)] that(2,3) tnc ty' nth [OF e] by auto
    then have "covered m False q" using minv_covp [OF inv qn(1), of ws''] that nth [of q] ty' by auto
    then show ?thesis by (rule cov)
  qed
  show "covered m' True q" if "q < length (heap m')" "heap m' ! q = Following t' ws''"
    "(True, q) \<notin> {}" for q t' ws''
  proof -
    have qn: "q < ?n" "q \<noteq> e" using cases [OF that(1)] that(2) new st nth [OF e] by auto
    then have "covered m True q" using minv_covf [OF inv qn(1), of t' ws''] that nth [of q] by auto
    then show ?thesis by (rule cov)
  qed
  show "heap m' ! c = Settled (Fulfilled VUndef)"
    if "q < length (heap m')" "g_ty G' q = TRes j" "heap m' ! q = Settled (Rejected r)" for q j r
  proof -
    have qn: "q < ?n" "q \<noteq> e" using cases [OF that(1)] that(2) tnc te ty' by auto
    then have "heap m ! c = Settled (Fulfilled VUndef)"
      using that minv_rej [OF inv qn(1), of j r] nth [of q] ty' by auto
    then show ?thesis using nset by simp
  qed
qed

lemma grows_refl: "grows m m"
  by (simp add: grows_def)

lemma grows_trans:
  assumes "grows m m1" and "grows m1 m2"
  shows "grows m m2"
  unfolding grows_def
proof (intro conjI allI impI)
  show "length (objs m) \<le> length (objs m2)" using assms unfolding grows_def by simp
  show "length (heap m) \<le> length (heap m2)" using assms unfolding grows_def by simp
  show "objs m2 ! a = objs m ! a" if "a < length (objs m)" for a
  proof -
    have "a < length (objs m1)" using that assms(1) unfolding grows_def by simp
    then show ?thesis using that assms unfolding grows_def by simp
  qed
  show "heap m2 ! p = Settled out" if "p < length (heap m)" "heap m ! p = Settled out" for p out
  proof -
    have "p < length (heap m1)" "heap m1 ! p = Settled out"
      using that assms(1) unfolding grows_def by simp_all
    then show ?thesis using assms(2) unfolding grows_def by simp
  qed
qed

lemma oinv_mono:
  assumes o: "oinv G m" and mn: "grows m m'"
  shows "oinv G m'"
  unfolding oinv_def
proof (intro conjI allI impI ballI)
  have lo: "\<And>a. a < length (objs m) \<Longrightarrow> a < length (objs m') \<and> objs m' ! a = objs m ! a"
    using mn unfolding grows_def by simp
  have lh: "\<And>p. p < length (heap m) \<Longrightarrow> p < length (heap m')"
    using mn unfolding grows_def by simp
  have st: "\<And>p out. p < length (heap m) \<Longrightarrow> heap m ! p = Settled out \<Longrightarrow> heap m' ! p = Settled out"
    using mn unfolding grows_def by simp
  show "length (g_cells G) = length (g_vs G)" using o unfolding oinv_def by simp
  show "plain v" if "v \<in> set (g_vs G)" for v using o that unfolding oinv_def by simp
  fix i assume i: "i < length (g_vs G)"
  have c: "g_cells G ! i < length (objs m)"
    and hd: "get_prop (objs m ! (g_cells G ! i)) (Name ''head'') = g_vs G ! i"
    and tl: "\<exists>t < length (heap m). get_prop (objs m ! (g_cells G ! i)) (Name ''tail'') = VPromise t
                  \<and> g_ty G t = TProd (Suc i)"
    using o i unfolding oinv_def by simp_all
  show "g_cells G ! i < length (objs m')" using lo [OF c] by simp
  show "get_prop (objs m' ! (g_cells G ! i)) (Name ''head'') = g_vs G ! i" using lo [OF c] hd by simp
  show "\<exists>t < length (heap m'). get_prop (objs m' ! (g_cells G ! i)) (Name ''tail'') = VPromise t
                  \<and> g_ty G t = TProd (Suc i)"
    using lo [OF c] tl lh by auto
next
  have lo: "\<And>a. a < length (objs m) \<Longrightarrow> a < length (objs m') \<and> objs m' ! a = objs m ! a"
    using mn unfolding grows_def by simp
  have lh: "\<And>p. p < length (heap m) \<Longrightarrow> p < length (heap m')"
    using mn unfolding grows_def by simp
  have st: "\<And>p out. p < length (heap m) \<Longrightarrow> heap m ! p = Settled out \<Longrightarrow> heap m' ! p = Settled out"
    using mn unfolding grows_def by simp
  fix r assume r: "g_cl G = Some r"
  have e: "g_end G < length (objs m)"
    and tl: "get_prop (objs m ! g_end G) (Name ''tail'') = VObj (g_end G)"
    and hd: "\<exists>pr < length (heap m). get_prop (objs m ! g_end G) (Name ''head'') = VPromise pr
                  \<and> heap m ! pr = Settled (Rejected r)"
    using o r unfolding oinv_def by simp_all
  show "g_end G < length (objs m')" using lo [OF e] by simp
  show "get_prop (objs m' ! g_end G) (Name ''tail'') = VObj (g_end G)" using lo [OF e] tl by simp
  show "\<exists>pr < length (heap m'). get_prop (objs m' ! g_end G) (Name ''head'') = VPromise pr
                  \<and> heap m' ! pr = Settled (Rejected r)"
    using lo [OF e] hd lh st by auto
qed

lemma minv_unexempt:
  assumes inv: "minv G c ex m"
    and a: "\<And>p ws. (False, p) \<in> ex \<Longrightarrow> (False, p) \<notin> ex' \<Longrightarrow> heap m ! p \<noteq> Pending ws"
    and b: "\<And>p t ws. (True, p) \<in> ex \<Longrightarrow> (True, p) \<notin> ex' \<Longrightarrow> heap m ! p \<noteq> Following t ws"
  shows "minv G c ex' m"
proof (rule minvI)
  show "c < length (heap m)" by (rule minv_c_lt [OF inv])
  show "\<And>p. length (heap m) \<le> p \<Longrightarrow> g_ty G p = TJunk" by (rule minv_junk [OF inv])
  show "\<And>p. p < length (heap m) \<Longrightarrow> bounds G (g_ty G p)" by (rule minv_bnd [OF inv])
  show "\<And>p. p < length (heap m) \<Longrightarrow> (g_ty G p = TClosed) = (p = c)" by (rule minv_cl [OF inv])
  show "\<And>p out. p < length (heap m) \<Longrightarrow> heap m ! p = Settled out \<Longrightarrow> settled_ok G (g_ty G p) out"
    by (rule minv_set [OF inv])
  show "\<And>p h r. p < length (heap m) \<Longrightarrow> (h, r) \<in> set (waiters (heap m ! p)) \<Longrightarrow>
      r < length (heap m) \<and> wt c (g_ty G p) h (g_ty G r)"
    by (rule minv_wait [OF inv])
  show "\<And>h r out. (h, r, out) \<in> set (queue m) \<Longrightarrow>
      r < length (heap m) \<and> (\<exists>ty. den G ty = Some out \<and> wt c ty h (g_ty G r))"
    by (rule minv_task [OF inv])
  show "\<And>p i. p < length (heap m) \<Longrightarrow> g_ty G p = TProd i \<Longrightarrow>
      (\<exists>out. heap m ! p = Settled out) \<or> (\<exists>ws. heap m ! p = Pending ws \<and> den_cell G i = None)"
    by (rule minv_prod [OF inv])
  show "covered m False p" if "p < length (heap m)" "heap m ! p = Pending ws" "consumer (g_ty G p)"
    "(False, p) \<notin> ex'" for p ws
    using minv_covp [OF inv that(1,2,3)] a [of p ws] that by blast
  show "covered m True p" if "p < length (heap m)" "heap m ! p = Following t ws" "(True, p) \<notin> ex'" for p t ws
    using minv_covf [OF inv that(1,2)] b [of p t ws] that by blast
  show "\<And>p i r. p < length (heap m) \<Longrightarrow> g_ty G p = TRes i \<Longrightarrow> heap m ! p = Settled (Rejected r) \<Longrightarrow>
      heap m ! c = Settled (Fulfilled VUndef)"
    by (rule minv_rej [OF inv])
qed

lemma eff_refl: "eff G r m m"
  by (simp add: eff_def grows_refl)

lemma eff_trans:
  assumes "eff G r m m1" and "eff G r m1 m2"
  shows "eff G r m m2"
proof -
  from assms obtain n1 n2 where
    "queue m1 = queue m @ n1" "\<forall>(h', r', o') \<in> set n1. rank (g_ty G r) < rank (g_ty G r')"
    "queue m2 = queue m1 @ n2" "\<forall>(h', r', o') \<in> set n2. rank (g_ty G r) < rank (g_ty G r')"
    unfolding eff_def by blast
  then have "queue m2 = queue m @ (n1 @ n2)"
    "\<forall>(h', r', o') \<in> set (n1 @ n2). rank (g_ty G r) < rank (g_ty G r')"
    by auto
  then show ?thesis using assms grows_trans unfolding eff_def by blast
qed

lemma wt_rank: "wt c t h t' \<Longrightarrow> consumer t \<Longrightarrow> rank t < rank t'"
  by (cases t) auto

lemma settle_eq:
  "d < length (heap m) \<Longrightarrow> \<forall>o'. heap m ! d \<noteq> Settled o' \<Longrightarrow>
     settle d out m = m\<lparr>heap := (heap m)[d := Settled out],
                         queue := queue m @ map (\<lambda>(h, r). (h, r, out)) (waiters (heap m ! d))\<rparr>"
  "heap m ! d = Settled o' \<Longrightarrow> settle d out m = m"
   apply (cases "heap m ! d"; simp add: settle_def)
  apply (simp add: settle_def)
  done

lemma resolve_eq:
  "d < length (heap m) \<Longrightarrow> heap m ! d = Pending ws \<Longrightarrow> plain v \<Longrightarrow>
     resolve d v m = settle d (Fulfilled v) m"
  "d < length (heap m) \<Longrightarrow> heap m ! d = Pending ws \<Longrightarrow> p < length (heap m) \<Longrightarrow>
     heap m ! p = Settled out \<Longrightarrow> resolve d (VPromise p) m = settle d out m"
  "d < length (heap m) \<Longrightarrow> heap m ! d = Pending ws \<Longrightarrow> p < length (heap m) \<Longrightarrow> p \<noteq> d \<Longrightarrow>
     heap m ! p = Pending ws' \<Longrightarrow>
     resolve d (VPromise p) m = m\<lparr>heap := (heap m)[d := Following p ws, p := Pending (ws' @ [(KLink, d)])]\<rparr>"
  "\<forall>ws. heap m ! d \<noteq> Pending ws \<Longrightarrow> resolve d v m = m"
     apply (cases v; simp add: resolve_def plain_def)
    apply (auto simp: resolve_def)[1]
   apply (simp add: resolve_def)
  apply (cases "heap m ! d"; simp add: resolve_def)
  done

lemma eff_settle:
  assumes inv: "minv G c ex m" and r: "r < length (heap m)"
    and dn: "den G (g_ty G r) = Some out" and cons: "consumer (g_ty G r)"
    and rj: "\<And>i reason. g_ty G r = TRes i \<Longrightarrow> out = Rejected reason \<Longrightarrow> heap m ! c = Settled (Fulfilled VUndef)"
  shows "minv G c (ex - {(False, r), (True, r)}) (settle r out m) \<and> eff G r m (settle r out m)"
proof (cases "\<exists>o'. heap m ! r = Settled o'")
  case True
  then obtain o' where s: "heap m ! r = Settled o'" by blast
  have "minv G c (ex - {(False, r), (True, r)}) m"
    by (rule minv_unexempt [OF inv]) (use s in auto)
  then show ?thesis using settle_eq(2) [OF s] eff_refl by simp
next
  case False
  then have uns: "\<forall>o'. heap m ! r \<noteq> Settled o'" by blast
  then have uns': "\<And>o'. heap m ! r \<noteq> Settled o'" by blast
  let ?m' = "settle r out m"
  have eq: "?m' = m\<lparr>heap := (heap m)[r := Settled out],
                         queue := queue m @ map (\<lambda>(h, r). (h, r, out)) (waiters (heap m ! r))\<rparr>"
    by (rule settle_eq(1) [OF r uns])
  have ok: "settled_ok G (g_ty G r) out" using dn cons by (cases "g_ty G r") auto
  have ws: "\<exists>ty. den G ty = Some out \<and> wt c ty h' (g_ty G r')"
    if "(h', r') \<in> set (waiters (heap m ! r))" for h' r'
    using minv_wait [OF inv r that] dn by blast
  have hq: "heap ?m' = (heap m)[r := Settled out]"
    "queue ?m' = queue m @ map (\<lambda>(h, r). (h, r, out)) (waiters (heap m ! r))"
    "objs ?m' = objs m"
    by (simp_all add: eq)
  have i: "minv G c (ex - {(False, r), (True, r)}) ?m'"
    by (rule minv_settle [OF inv r uns' ok ws rj hq(1,2)])
  have mn: "grows m ?m'"
    unfolding grows_def
  proof (intro conjI allI impI)
    fix p o' assume "p < length (heap m)" "heap m ! p = Settled o'"
    moreover from this have "p \<noteq> r" using uns by auto
    ultimately show "heap ?m' ! p = Settled o'" using hq by simp
  qed (simp_all add: hq)
  have rk: "rank (g_ty G r) < rank (g_ty G r')"
    if "(h', r', o') \<in> set (map (\<lambda>(h, r). (h, r, out)) (waiters (heap m ! r)))" for h' r' o'
  proof -
    from that have "(h', r') \<in> set (waiters (heap m ! r))" by auto
    then have "wt c (g_ty G r) h' (g_ty G r')" using minv_wait [OF inv r] by blast
    then show ?thesis using cons by (rule wt_rank)
  qed
  have "eff G r m ?m'"
    unfolding eff_def
    apply (intro conjI exI [of _ "map (\<lambda>(h, r). (h, r, out)) (waiters (heap m ! r))"])
      apply (rule mn)
     apply (rule hq(2))
    apply (use rk in blast)
    done
  with i show ?thesis by simp
qed

lemma minv_weaken: "minv G c ex m \<Longrightarrow> ex \<subseteq> ex' \<Longrightarrow> minv G c ex' m"
  by (rule minv_unexempt) auto

lemma eff_resolve_value:
  assumes inv: "minv G c ex m" and r: "r < length (heap m)" and ex: "(True, r) \<notin> ex"
    and rt: "resolved_to m v out"
    and dn: "den G (g_ty G r) = Some out" and cons: "consumer (g_ty G r)"
    and rj: "\<And>i reason. g_ty G r = TRes i \<Longrightarrow> out = Rejected reason \<Longrightarrow> heap m ! c = Settled (Fulfilled VUndef)"
  shows "minv G c (ex - {(False, r)}) (resolve r v m) \<and> eff G r m (resolve r v m)"
proof (cases "\<exists>ws. heap m ! r = Pending ws")
  case True
  then obtain ws where hr: "heap m ! r = Pending ws" by blast
  have eq: "resolve r v m = settle r out m"
    using rt resolve_eq(1,2) [OF r hr] unfolding resolved_to_def by auto
  have "ex - {(False, r), (True, r)} = ex - {(False, r)}" using ex by auto
  then show ?thesis using eff_settle [OF inv r dn cons rj] eq by simp
next
  case False
  then have eq: "resolve r v m = m" using resolve_eq(4) by blast
  have "minv G c (ex - {(False, r)}) m"
    by (rule minv_unexempt [OF inv]) (use False in auto)
  then show ?thesis using eq eff_refl by simp
qed

lemma eff_resolve_follow:
  assumes inv: "minv G c ex m" and r: "r < length (heap m)" and ex: "(True, r) \<notin> ex"
    and t: "t < length (heap m)" and ht: "heap m ! t = Pending ws'"
    and tr: "g_ty G r = TCur i" and tt: "g_ty G t = TProd i"
  shows "minv G c (ex - {(False, r)}) (resolve r (VPromise t) m) \<and> eff G r m (resolve r (VPromise t) m)"
proof (cases "\<exists>ws. heap m ! r = Pending ws")
  case True
  then obtain ws where hr: "heap m ! r = Pending ws" by blast
  have rt: "r \<noteq> t" "t \<noteq> r" using tr tt by auto
  let ?m' = "resolve r (VPromise t) m"
  have eq: "?m' = m\<lparr>heap := (heap m)[r := Following t ws, t := Pending (ws' @ [(KLink, r)])]\<rparr>"
    by (rule resolve_eq(3) [OF r hr t rt(2) ht])
  have hq: "heap ?m' = (heap m)[r := Following t ws, t := Pending (ws' @ [(KLink, r)])]"
    "queue ?m' = queue m" "objs ?m' = objs m"
    by (simp_all add: eq)
  have i: "minv G c (ex - {(False, r), (True, r)}) ?m'"
    by (rule minv_follow [OF inv r t rt(1) hr ht tr tt hq(1,2)])
  have e: "ex - {(False, r), (True, r)} = ex - {(False, r)}" using ex by auto
  have mn: "grows m ?m'"
    unfolding grows_def
  proof (intro conjI allI impI)
    fix p o' assume "p < length (heap m)" "heap m ! p = Settled o'"
    moreover from this have "p \<noteq> r" "p \<noteq> t" using hr ht by auto
    ultimately show "heap ?m' ! p = Settled o'" using hq by simp
  qed (simp_all add: hq)
  have "eff G r m ?m'" unfolding eff_def using mn hq(2) by simp
  then show ?thesis using i e by simp
next
  case False
  then have eq: "resolve r (VPromise t) m = m" using resolve_eq(4) by blast
  have "minv G c (ex - {(False, r)}) m"
    by (rule minv_unexempt [OF inv]) (use False in auto)
  then show ?thesis using eq eff_refl by simp
qed

lemma closed_resolve:
  assumes inv: "minv G c ex m" and ex: "(True, c) \<notin> ex"
    and cl: "g_cl G \<noteq> None" and k: "length (g_vs G) < g_k G"
  shows "minv G c ex (resolve c VUndef m) \<and> grows m (resolve c VUndef m)
    \<and> queue (resolve c VUndef m) = queue m
    \<and> length (heap (resolve c VUndef m)) = length (heap m)
    \<and> heap (resolve c VUndef m) ! c = Settled (Fulfilled VUndef)"
proof -
  have cn: "c < length (heap m)" by (rule minv_c_lt [OF inv])
  have tc: "g_ty G c = TClosed" using minv_cl [OF inv cn] by simp
  have nw: "waiters (heap m ! c) = []"
  proof (cases "waiters (heap m ! c)")
    case (Cons w ws)
    then have "(fst w, snd w) \<in> set (waiters (heap m ! c))" by simp
    then show ?thesis using minv_wait [OF inv cn] tc by fastforce
  qed simp
  show ?thesis
  proof (cases "heap m ! c")
    case (Pending ws)
    then have ws: "ws = []" using nw by simp
    let ?m' = "resolve c VUndef m"
    have eq: "?m' = m\<lparr>heap := (heap m)[c := Settled (Fulfilled VUndef)], queue := queue m @ []\<rparr>"
      using resolve_eq(1) [OF cn Pending, of VUndef] settle_eq(1) [OF cn, of "Fulfilled VUndef"] Pending ws
      by (simp add: plain_def)
    have hq: "heap ?m' = (heap m)[c := Settled (Fulfilled VUndef)]"
      "queue ?m' = queue m @ map (\<lambda>(h, r). (h, r, Fulfilled VUndef)) (waiters (heap m ! c))"
      "objs ?m' = objs m"
      by (simp_all add: eq nw)
    have "minv G c (ex - {(False, c), (True, c)}) ?m'"
      by (rule minv_settle [OF inv cn _ _ _ _ hq(1,2)]) (use Pending tc cl k nw in auto)
    then have i: "minv G c ex ?m'" by (rule minv_weaken) auto
    have mn: "grows m ?m'"
      unfolding grows_def
    proof (intro conjI allI impI)
      fix p o' assume "p < length (heap m)" "heap m ! p = Settled o'"
      moreover from this have "p \<noteq> c" using Pending by auto
      ultimately show "heap ?m' ! p = Settled o'" using hq by simp
    qed (simp_all add: hq)
    show ?thesis using i mn hq cn nw by simp
  next
    case (Following t ws)
    have "covered m True c" by (rule minv_covf [OF inv cn Following ex])
    then consider h o' where "(h, c, o') \<in> set (queue m)" "h = KLink"
      | p' h where "p' < length (heap m)" "(h, c) \<in> set (waiters (heap m ! p'))" "h = KLink"
      unfolding covered_def by auto
    then have False
    proof cases
      case 1
      then show ?thesis using minv_task [OF inv 1(1)] tc
        by (auto elim!: wt.elims)
    next
      case 2
      then show ?thesis using minv_wait [OF inv 2(1,2)] tc
        by (auto elim!: wt.elims)
    qed
    then show ?thesis ..
  next
    case (Settled o')
    then have "o' = Fulfilled VUndef" using minv_set [OF inv cn Settled] tc by simp
    moreover have "resolve c VUndef m = m" using resolve_eq(4) [of m c] Settled by simp
    ultimately show ?thesis using inv Settled grows_refl by simp
  qed
qed

lemma cell_head:
  assumes o: "oinv G m" and d: "den_cell G i = Some out"
  shows "\<exists>a v out'. out = Fulfilled (VObj a) \<and> a < length (objs m)
    \<and> get_prop (objs m ! a) (Name ''head'') = v \<and> resolved_to m v out' \<and> den_head G i = Some out'"
proof (cases "i < length (g_vs G)")
  case True
  then have "out = Fulfilled (VObj (g_cells G ! i))" using d by (simp add: den_cell_def)
  moreover have "g_cells G ! i < length (objs m)"
    "get_prop (objs m ! (g_cells G ! i)) (Name ''head'') = g_vs G ! i" "plain (g_vs G ! i)"
    using o True unfolding oinv_def by simp_all
  moreover have "den_head G i = Some (Fulfilled (g_vs G ! i))" using True by (simp add: den_head_def)
  ultimately show ?thesis unfolding resolved_to_def by blast
next
  case False
  then obtain reason where cl: "g_cl G = Some reason" and out: "out = Fulfilled (VObj (g_end G))"
    using d by (auto simp: den_cell_def split: option.splits)
  then obtain pr where "g_end G < length (objs m)" "pr < length (heap m)"
    "get_prop (objs m ! g_end G) (Name ''head'') = VPromise pr" "heap m ! pr = Settled (Rejected reason)"
    using o unfolding oinv_def by blast
  moreover have "den_head G i = Some (Rejected reason)" using False cl by (simp add: den_head_def)
  ultimately show ?thesis using out unfolding resolved_to_def by blast
qed

lemma cell_tail:
  assumes o: "oinv G m" and d: "den_cell G i = Some out"
  shows "\<exists>a. out = Fulfilled (VObj a) \<and> a < length (objs m)
    \<and> ((\<exists>t < length (heap m). get_prop (objs m ! a) (Name ''tail'') = VPromise t \<and> g_ty G t = TProd (Suc i))
       \<or> (get_prop (objs m ! a) (Name ''tail'') = VObj a \<and> den_cell G (Suc i) = Some (Fulfilled (VObj a))))"
proof (cases "i < length (g_vs G)")
  case True
  then have "out = Fulfilled (VObj (g_cells G ! i))" using d by (simp add: den_cell_def)
  moreover have "g_cells G ! i < length (objs m)"
    "\<exists>t < length (heap m). get_prop (objs m ! (g_cells G ! i)) (Name ''tail'') = VPromise t
                  \<and> g_ty G t = TProd (Suc i)"
    using o True unfolding oinv_def by simp_all
  ultimately show ?thesis by blast
next
  case False
  then obtain reason where cl: "g_cl G = Some reason" and out: "out = Fulfilled (VObj (g_end G))"
    using d by (auto simp: den_cell_def split: option.splits)
  then have "g_end G < length (objs m)" "get_prop (objs m ! g_end G) (Name ''tail'') = VObj (g_end G)"
    using o unfolding oinv_def by simp_all
  moreover have "den_cell G (Suc i) = Some (Fulfilled (VObj (g_end G)))"
    using False cl by (simp add: den_cell_def)
  ultimately show ?thesis using out by blast
qed

lemma dequeued:
  assumes inv: "minv G c {} m" and o: "oinv G m" and q: "queue m = (h, r, out) # rest"
  shows "minv G c {(h = KLink, r)} (m\<lparr>queue := rest\<rparr>)" and "oinv G (m\<lparr>queue := rest\<rparr>)"
    and "step m = deliver (h, r, out) (m\<lparr>queue := rest\<rparr>)"
    and "r < length (heap m)"
proof -
  show "minv G c {(h = KLink, r)} (m\<lparr>queue := rest\<rparr>)"
    using minv_dequeue [OF inv q, of "m\<lparr>queue := rest\<rparr>"] by simp
  show "oinv G (m\<lparr>queue := rest\<rparr>)"
    by (rule oinv_mono [OF o]) (simp add: grows_def)
  show "step m = deliver (h, r, out) (m\<lparr>queue := rest\<rparr>)" by (simp add: step_def q)
  show "r < length (heap m)" using minv_task [OF inv, of h r out] q by simp
qed

lemma step_link:
  assumes inv: "minv G c {} m" and o: "oinv G m" and q: "queue m = (KLink, r, out) # rest"
    and tr: "g_ty G r = TCur i" and d: "den_cell G i = Some out"
  shows "minv G c {} (step m) \<and> eff G r (m\<lparr>queue := rest\<rparr>) (step m)"
proof -
  let ?m0 = "m\<lparr>queue := rest\<rparr>"
  note dq = dequeued [OF inv o q]
  have st: "step m = settle r out ?m0" using dq(3) by simp
  have "minv G c ({(True, r)} - {(False, r), (True, r)}) (settle r out ?m0) \<and> eff G r ?m0 (settle r out ?m0)"
    by (rule eff_settle) (use dq tr d in auto)
  then show ?thesis using st by simp
qed

lemma step_head:
  assumes inv: "minv G c {} m" and o: "oinv G m" and q: "queue m = (KGet (Name ''head''), r, out) # rest"
    and tr: "g_ty G r = THead i" and d: "den_cell G i = Some out"
  shows "minv G c {} (step m) \<and> eff G r (m\<lparr>queue := rest\<rparr>) (step m)"
proof -
  let ?m0 = "m\<lparr>queue := rest\<rparr>"
  note dq = dequeued [OF inv o q]
  obtain a v out' where a: "out = Fulfilled (VObj a)" "a < length (objs ?m0)"
    "get_prop (objs ?m0 ! a) (Name ''head'') = v" "resolved_to ?m0 v out'" "den_head G i = Some out'"
    using cell_head [OF dq(2) d] by blast
  have st: "step m = resolve r v ?m0" using dq(3) a by (simp add: finish_def)
  have "minv G c ({(False, r)} - {(False, r)}) (resolve r v ?m0) \<and> eff G r ?m0 (resolve r v ?m0)"
    by (rule eff_resolve_value [OF _ _ _ a(4)]) (use dq tr a in auto)
  then show ?thesis using st by simp
qed

lemma step_tail:
  assumes inv: "minv G c {} m" and o: "oinv G m" and q: "queue m = (KGet (Name ''tail''), r, out) # rest"
    and tr: "g_ty G r = TCur (Suc i)" and d: "den_cell G i = Some out"
  shows "minv G c {} (step m) \<and> eff G r (m\<lparr>queue := rest\<rparr>) (step m)"
proof -
  let ?m0 = "m\<lparr>queue := rest\<rparr>"
  note dq = dequeued [OF inv o q]
  have i0: "minv G c {(False, r)} ?m0" using dq(1) by simp
  have r0: "r < length (heap ?m0)" using dq(4) by simp
  obtain a where a: "out = Fulfilled (VObj a)" "a < length (objs ?m0)"
    and alt: "(\<exists>t < length (heap ?m0). get_prop (objs ?m0 ! a) (Name ''tail'') = VPromise t \<and> g_ty G t = TProd (Suc i))
       \<or> (get_prop (objs ?m0 ! a) (Name ''tail'') = VObj a \<and> den_cell G (Suc i) = Some (Fulfilled (VObj a)))"
    using cell_tail [OF dq(2) d] by blast
  have st: "step m = resolve r (get_prop (objs ?m0 ! a) (Name ''tail'')) ?m0"
    using dq(3) a by (simp add: finish_def)
  from alt show ?thesis
  proof
    assume "\<exists>t < length (heap ?m0). get_prop (objs ?m0 ! a) (Name ''tail'') = VPromise t \<and> g_ty G t = TProd (Suc i)"
    then obtain t where t: "t < length (heap ?m0)" "get_prop (objs ?m0 ! a) (Name ''tail'') = VPromise t"
      "g_ty G t = TProd (Suc i)" by blast
    from minv_prod [OF i0 t(1,3)] show ?thesis
    proof
      assume "\<exists>o'. heap ?m0 ! t = Settled o'"
      then obtain o' where ht: "heap ?m0 ! t = Settled o'" by blast
      have dn: "den_cell G (Suc i) = Some o'" using minv_set [OF i0 t(1) ht] t(3) by simp
      have rt: "resolved_to ?m0 (VPromise t) o'" unfolding resolved_to_def using t(1) ht by simp
      have "minv G c ({(False, r)} - {(False, r)}) (resolve r (VPromise t) ?m0)
          \<and> eff G r ?m0 (resolve r (VPromise t) ?m0)"
        by (rule eff_resolve_value [OF i0 r0 _ rt]) (use tr dn in auto)
      then show ?thesis using st t(2) by simp
    next
      assume "\<exists>ws. heap ?m0 ! t = Pending ws \<and> den_cell G (Suc i) = None"
      then obtain ws' where ht: "heap ?m0 ! t = Pending ws'" by blast
      have "minv G c ({(False, r)} - {(False, r)}) (resolve r (VPromise t) ?m0)
          \<and> eff G r ?m0 (resolve r (VPromise t) ?m0)"
        by (rule eff_resolve_follow [OF i0 r0 _ t(1) ht tr t(3)]) simp
      then show ?thesis using st t(2) by simp
    qed
  next
    assume e: "get_prop (objs ?m0 ! a) (Name ''tail'') = VObj a \<and> den_cell G (Suc i) = Some (Fulfilled (VObj a))"
    have rt: "resolved_to ?m0 (VObj a) (Fulfilled (VObj a))" by (simp add: resolved_to_def plain_def)
    have "minv G c ({(False, r)} - {(False, r)}) (resolve r (VObj a) ?m0)
        \<and> eff G r ?m0 (resolve r (VObj a) ?m0)"
      by (rule eff_resolve_value [OF i0 r0 _ rt]) (use tr e in auto)
    then show ?thesis using st e by simp
  qed
qed

lemma eff_of_mono: "grows m m' \<Longrightarrow> queue m' = queue m \<Longrightarrow> eff G r m m'"
  by (simp add: eff_def)

lemma step_result:
  assumes inv: "minv G c {} m" and o: "oinv G m" and q: "queue m = (KGetResult c, r, out) # rest"
    and tr: "g_ty G r = TRes i" and d: "den_head G i = Some out"
  shows "minv G c {} (step m) \<and> eff G r (m\<lparr>queue := rest\<rparr>) (step m)"
proof -
  let ?m0 = "m\<lparr>queue := rest\<rparr>"
  note dq = dequeued [OF inv o q]
  have i0: "minv G c {(False, r)} ?m0" using dq(1) by simp
  have r0: "r < length (heap ?m0)" using dq(4) by simp
  show ?thesis
  proof (cases out)
    case (Fulfilled v)
    then have iv: "i < length (g_vs G)" "v = g_vs G ! i"
      using d by (auto simp: den_head_def split: if_splits option.splits)
    then have "plain v" using o unfolding oinv_def by simp
    then have rt: "resolved_to ?m0 v out" using Fulfilled by (simp add: resolved_to_def)
    have st: "step m = resolve r v ?m0" using dq(3) Fulfilled by (simp add: finish_def)
    have "minv G c ({(False, r)} - {(False, r)}) (resolve r v ?m0) \<and> eff G r ?m0 (resolve r v ?m0)"
      by (rule eff_resolve_value [OF i0 r0 _ rt]) (use tr d Fulfilled in auto)
    then show ?thesis using st by simp
  next
    case (Rejected reason)
    then have cl: "g_cl G \<noteq> None" and ni: "length (g_vs G) \<le> i"
      using d by (auto simp: den_head_def split: if_splits option.splits)
    have "i < g_k G" using minv_bnd [OF i0 r0] tr by simp
    then have k: "length (g_vs G) < g_k G" using ni by simp
    let ?m1 = "resolve c VUndef ?m0"
    let ?m2 = "?m1\<lparr>heap := heap ?m1 @ [Settled (Rejected reason)]\<rparr>"
    let ?p = "length (heap ?m1)"
    have cr: "minv G c {(False, r)} ?m1" "grows ?m0 ?m1" "queue ?m1 = queue ?m0"
      "length (heap ?m1) = length (heap ?m0)" "heap ?m1 ! c = Settled (Fulfilled VUndef)"
      using closed_resolve [OF i0 _ cl k] by simp_all
    have st: "step m = resolve r (VPromise ?p) ?m2"
      using dq(3) Rejected by (simp add: finish_def q_reject_def new_promise_def Let_def)
    have i2: "minv G c {(False, r)} ?m2"
      by (rule minv_alloc_junk [OF cr(1)]) simp_all
    have m12: "grows ?m1 ?m2" unfolding grows_def by (simp add: nth_append)
    have e02: "eff G r ?m0 ?m2"
      by (rule eff_of_mono [OF grows_trans [OF cr(2) m12]]) (simp add: cr(3))
    have r2: "r < length (heap ?m2)" using r0 cr(4) by simp
    have rt: "resolved_to ?m2 (VPromise ?p) out" unfolding resolved_to_def using Rejected by simp
    have c2: "heap ?m2 ! c = Settled (Fulfilled VUndef)"
      using cr(5) minv_c_lt [OF cr(1)] by (simp add: nth_append)
    have "minv G c ({(False, r)} - {(False, r)}) (resolve r (VPromise ?p) ?m2)
        \<and> eff G r ?m2 (resolve r (VPromise ?p) ?m2)"
      by (rule eff_resolve_value [OF i2 r2 _ rt]) (use tr d c2 in auto)
    then show ?thesis using st eff_trans [OF e02] by simp
  qed
qed

lemma step_post:
  assumes inv: "minv G c {} m" and o: "oinv G m" and q: "queue m = (h, r, out) # rest"
  shows "minv G c {} (step m) \<and> eff G r (m\<lparr>queue := rest\<rparr>) (step m) \<and> consumer (g_ty G r)"
proof -
  obtain ty where ty: "den G ty = Some out" "wt c ty h (g_ty G r)"
    using minv_task [OF inv, of h r out] q by auto
  show ?thesis
  proof (cases ty)
    case (TProd i)
    then consider "h = KGet (Name ''head'')" "g_ty G r = THead i"
      | "h = KGet (Name ''tail'')" "g_ty G r = TCur (Suc i)"
      | "h = KLink" "g_ty G r = TCur i"
      using ty(2) by auto
    then show ?thesis
    proof cases
      case 1
      then show ?thesis using step_head [OF inv o, of r out rest i] q ty(1) TProd by simp
    next
      case 2
      then show ?thesis using step_tail [OF inv o, of r out rest i] q ty(1) TProd by simp
    next
      case 3
      then show ?thesis using step_link [OF inv o, of r out rest i] q ty(1) TProd by simp
    qed
  next
    case (TCur i)
    then consider "h = KGet (Name ''head'')" "g_ty G r = THead i"
      | "h = KGet (Name ''tail'')" "g_ty G r = TCur (Suc i)"
      using ty(2) by auto
    then show ?thesis
    proof cases
      case 1
      then show ?thesis using step_head [OF inv o, of r out rest i] q ty(1) TCur by simp
    next
      case 2
      then show ?thesis using step_tail [OF inv o, of r out rest i] q ty(1) TCur by simp
    qed
  next
    case (THead i)
    then have "h = KGetResult c" "g_ty G r = TRes i" using ty(2) by auto
    then show ?thesis using step_result [OF inv o, of r out rest i] q ty(1) THead by simp
  qed (use ty in auto)
qed

lemma step_inv:
  assumes inv: "minv G c {} m" and o: "oinv G m"
  shows "minv G c {} (step m) \<and> oinv G (step m) \<and> grows m (step m)"
proof (cases "queue m")
  case Nil
  then show ?thesis using inv o by (simp add: step_def grows_refl)
next
  case (Cons t rest)
  obtain h r out where t: "t = (h, r, out)" by (cases t) auto
  have sp: "minv G c {} (step m)" "eff G r (m\<lparr>queue := rest\<rparr>) (step m)"
    using step_post [OF inv o, of h r out rest] Cons t by simp_all
  have "grows m (m\<lparr>queue := rest\<rparr>)" by (simp add: grows_def)
  then have mn: "grows m (step m)" using sp(2) grows_trans unfolding eff_def by blast
  then show ?thesis using sp(1) oinv_mono [OF o] by simp
qed

lemma quiescent_iff: "quiescent m = (queue m = [])"
  by (cases "queue m") (simp_all add: quiescent_def)

lemma run_quiescent: "quiescent m \<Longrightarrow> run n m = m"
  by (cases n) simp_all

lemma run_add: "run (a + b) m = run b (run a m)"
  by (induction a arbitrary: m) (simp_all add: run_quiescent)

lemma task_rank_bound:
  assumes inv: "minv G c {} m" and t: "(h, r, out) \<in> set (queue m)"
  shows "rank (g_ty G r) \<le> 3 * g_k G"
proof -
  obtain ty where "wt c ty h (g_ty G r)" and r: "r < length (heap m)"
    using minv_task [OF inv t] by blast
  then have "consumer (g_ty G r)" by (cases ty) auto
  then show ?thesis using minv_bnd [OF inv r] by (cases "g_ty G r") auto
qed

lemma drain_pass:
  assumes "minv G c {} m" and "oinv G m" and "queue m = old @ new"
    and "\<forall>(h, r, out) \<in> set old. \<rho> \<le> rank (g_ty G r)"
    and "\<forall>(h, r, out) \<in> set new. \<rho> < rank (g_ty G r)"
  shows "minv G c {} (run (length old) m) \<and> oinv G (run (length old) m) \<and> grows m (run (length old) m)
    \<and> (\<forall>(h, r, out) \<in> set (queue (run (length old) m)). \<rho> < rank (g_ty G r))"
  using assms
proof (induction old arbitrary: m new)
  case Nil
  then show ?case by (simp add: grows_refl)
next
  case (Cons t old)
  obtain h r out where t: "t = (h, r, out)" by (cases t) auto
  have q: "queue m = (h, r, out) # (old @ new)" using Cons.prems(3) t by simp
  have nq: "\<not> quiescent m" using q by (simp add: quiescent_iff)
  have sp: "minv G c {} (step m)" "eff G r (m\<lparr>queue := old @ new\<rparr>) (step m)"
    using step_post [OF Cons.prems(1,2) q] by simp_all
  have si: "oinv G (step m)" "grows m (step m)" using step_inv [OF Cons.prems(1,2)] by simp_all
  obtain new' where new': "queue (step m) = old @ new @ new'"
    "\<forall>(h', r', o') \<in> set new'. rank (g_ty G r) < rank (g_ty G r')"
    using sp(2) unfolding eff_def by auto
  have rr: "\<rho> \<le> rank (g_ty G r)" using Cons.prems(4) t by simp
  have a: "\<forall>(h, r, out) \<in> set old. \<rho> \<le> rank (g_ty G r)" using Cons.prems(4) by simp
  have b: "\<forall>(h, r, out) \<in> set (new @ new'). \<rho> < rank (g_ty G r)"
    using Cons.prems(5) new'(2) rr by fastforce
  have ih: "minv G c {} (run (length old) (step m)) \<and> oinv G (run (length old) (step m))
    \<and> grows (step m) (run (length old) (step m))
    \<and> (\<forall>(h, r, out) \<in> set (queue (run (length old) (step m))). \<rho> < rank (g_ty G r))"
    by (rule Cons.IH [OF sp(1) si(1) _ a b]) (simp add: new'(1))
  have "run (length (t # old)) m = run (length old) (step m)" using nq by simp
  then show ?case using ih grows_trans [OF si(2)] by simp
qed

lemma drain_level:
  assumes "minv G c {} m" and "oinv G m"
    and "\<forall>(h, r, out) \<in> set (queue m). \<rho> \<le> rank (g_ty G r)"
  shows "\<exists>n. quiescent (run n m) \<and> minv G c {} (run n m) \<and> oinv G (run n m) \<and> grows m (run n m)"
  using assms
proof (induction "Suc (3 * g_k G) - \<rho>" arbitrary: m \<rho>)
  case 0
  have "queue m = []"
  proof (cases "queue m")
    case (Cons t ts)
    obtain h r out where "t = (h, r, out)" by (cases t) auto
    then have "(h, r, out) \<in> set (queue m)" using Cons by simp
    then have "rank (g_ty G r) \<le> 3 * g_k G" "\<rho> \<le> rank (g_ty G r)"
      using task_rank_bound [OF "0.prems"(1)] "0.prems"(3) by auto
    then show ?thesis using "0.hyps" by simp
  qed simp
  then have "quiescent (run 0 m)" by (simp add: quiescent_iff)
  then show ?case using "0.prems" grows_refl by (intro exI [of _ 0]) simp
next
  case (Suc d)
  let ?m' = "run (length (queue m)) m"
  have p: "minv G c {} ?m'" "oinv G ?m'" "grows m ?m'"
    "\<forall>(h, r, out) \<in> set (queue ?m'). Suc \<rho> \<le> rank (g_ty G r)"
    using drain_pass [OF Suc.prems(1,2), of "queue m" "[]" \<rho>] Suc.prems(3) by auto
  have "d = Suc (3 * g_k G) - Suc \<rho>" using Suc.hyps(2) by simp
  from Suc.hyps(1) [OF this p(1,2,4)] obtain n where
    n: "quiescent (run n ?m')" "minv G c {} (run n ?m')" "oinv G (run n ?m')" "grows ?m' (run n ?m')"
    by blast
  have "run (length (queue m) + n) m = run n ?m'" by (rule run_add)
  then show ?case using n grows_trans [OF p(3)] by (intro exI [of _ "length (queue m) + n"]) simp
qed

lemma drain:
  assumes "minv G c {} m" and "oinv G m"
  shows "\<exists>n. quiescent (run n m) \<and> minv G c {} (run n m) \<and> oinv G (run n m) \<and> grows m (run n m)"
  by (rule drain_level [OF assms, of 0]) auto

lemma run_inv:
  assumes "minv G c {} m" and "oinv G m"
  shows "minv G c {} (run n m) \<and> oinv G (run n m) \<and> grows m (run n m)"
  using assms
proof (induction n arbitrary: m)
  case 0
  then show ?case by (simp add: grows_refl)
next
  case (Suc n)
  note si = step_inv [OF Suc.prems]
  show ?case using Suc.IH [of "step m"] si Suc.prems grows_trans [of m "step m"] by (auto simp: grows_refl)
qed

lemma den_down:
  "den_head G i = Some out \<Longrightarrow> den_cell G i \<noteq> None"
  "den_cell G (Suc i) = Some out \<Longrightarrow> den_cell G i \<noteq> None"
  by (auto simp: den_head_def den_cell_def split: if_splits option.splits)

lemma settled_at_rest:
  assumes inv: "minv G c {} m" and q: "queue m = []"
  shows "p < length (heap m) \<Longrightarrow> consumer (g_ty G p) \<Longrightarrow> den G (g_ty G p) = Some out \<Longrightarrow>
    heap m ! p = Settled out"
proof (induction "rank (g_ty G p)" arbitrary: p out rule: less_induct)
  case less
  have src: False
    if w: "p' < length (heap m)" "(h, p) \<in> set (waiters (heap m ! p'))" for p' h
  proof -
    have wt: "wt c (g_ty G p') h (g_ty G p)" using minv_wait [OF inv w] by simp
    have uns: "\<And>o'. heap m ! p' \<noteq> Settled o'" using w(2) by auto
    show False
    proof (cases "g_ty G p'")
      case (TProd i)
      then have "den_cell G i \<noteq> None" using wt less.prems(3) den_down by auto
      then show False using minv_prod [OF inv w(1) TProd] uns by auto
    next
      case (TCur i)
      then have d: "den_cell G i \<noteq> None" and rk: "rank (g_ty G p') < rank (g_ty G p)"
        using wt less.prems(3) den_down by auto
      then obtain o' where "den G (g_ty G p') = Some o'" using TCur by auto
      then have "heap m ! p' = Settled o'" using less.hyps [OF rk w(1)] TCur by simp
      then show False using uns by simp
    next
      case (THead i)
      then have d: "den G (g_ty G p') = Some out" and rk: "rank (g_ty G p') < rank (g_ty G p)"
        using wt less.prems(3) by auto
      then have "heap m ! p' = Settled out" using less.hyps [OF rk w(1)] THead by simp
      then show False using uns by simp
    qed (use wt in auto)
  qed
  show ?case
  proof (cases "heap m ! p")
    case (Settled o')
    then show ?thesis using minv_set [OF inv less.prems(1) Settled] less.prems(2,3)
      by (cases "g_ty G p") auto
  next
    case (Pending ws)
    have "covered m False p" by (rule minv_covp [OF inv less.prems(1) Pending less.prems(2)]) simp
    then show ?thesis using src q unfolding covered_def by auto
  next
    case (Following t ws)
    have "covered m True p" by (rule minv_covf [OF inv less.prems(1) Following]) simp
    then show ?thesis using src q unfolding covered_def by auto
  qed
qed

lemma exec_snoc: "exec (ops @ [x]) = apply_op x (exec ops)"
  by (simp add: exec_def)

lemma accepted_snoc:
  "accepted (ops @ [Put v]) = (if closing ops = None then accepted ops @ [v] else accepted ops)"
  "accepted (ops @ [Get]) = accepted ops"
  "accepted (ops @ [Turn]) = accepted ops"
  "accepted (ops @ [Close reason]) = accepted ops"
  by (induction ops rule: accepted.induct) simp_all

lemma closing_snoc:
  "closing (ops @ [Put v]) = closing ops"
  "closing (ops @ [Get]) = closing ops"
  "closing (ops @ [Turn]) = closing ops"
  "closing (ops @ [Close reason]) = (case closing ops of None \<Rightarrow> Some reason | Some r \<Rightarrow> Some r)"
  by (induction ops rule: closing.induct) simp_all

lemma gets_snoc:
  "gets (ops @ [Put v]) = gets ops"
  "gets (ops @ [Get]) = Suc (gets ops)"
  "gets (ops @ [Turn]) = gets ops"
  "gets (ops @ [Close reason]) = gets ops"
  by (induction ops rule: gets.induct) simp_all

lemma start_eq:
  "start = \<lparr>vars = \<lparr>ends_resolve = 0, ends_promise = VPromise 0, closed = 1\<rparr>,
            mach = init\<lparr>heap := [Pending [], Pending []]\<rparr>, results = []\<rparr>"
  by (simp add: start_def Queue_def q_defer_def new_promise_def init_def)

lemma qinvI:
  assumes "minv G (closed (vars s)) {} (mach s)" and "oinv G (mach s)"
    and "cur < length (heap (mach s))" and "ends_promise (vars s) = VPromise cur"
    and "g_ty G cur = TCur (g_k G) \<or> g_k G = 0 \<and> g_ty G cur = TProd 0"
    and "ends_resolve (vars s) < length (heap (mach s))"
    and "g_cl G = None \<Longrightarrow> g_ty G (ends_resolve (vars s)) = TProd (length (g_vs G))"
    and "\<And>p. g_cl G = None \<Longrightarrow> p < length (heap (mach s)) \<Longrightarrow> g_ty G p = TProd (length (g_vs G)) \<Longrightarrow>
           p = ends_resolve (vars s)"
    and "g_cl G \<noteq> None \<Longrightarrow> g_ty G (ends_resolve (vars s)) = TProd (length (g_vs G))
            \<or> g_ty G (ends_resolve (vars s)) = TJunk"
    and "length (results s) = g_k G"
    and "\<And>j. j < g_k G \<Longrightarrow> \<exists>g < length (heap (mach s)). results s ! j = VPromise g \<and> g_ty G g = TRes j"
  shows "qinv G s"
  unfolding qinv_def using assms by blast

lemma qinv_minv: "qinv G s \<Longrightarrow> minv G (closed (vars s)) {} (mach s)"
  and qinv_oinv: "qinv G s \<Longrightarrow> oinv G (mach s)"
  and qinv_cur: "qinv G s \<Longrightarrow> \<exists>cur < length (heap (mach s)). ends_promise (vars s) = VPromise cur
            \<and> (g_ty G cur = TCur (g_k G) \<or> g_k G = 0 \<and> g_ty G cur = TProd 0)"
  and qinv_end: "qinv G s \<Longrightarrow> ends_resolve (vars s) < length (heap (mach s))"
  and qinv_open: "qinv G s \<Longrightarrow> g_cl G = None \<Longrightarrow> g_ty G (ends_resolve (vars s)) = TProd (length (g_vs G))"
  and qinv_uniq: "qinv G s \<Longrightarrow> g_cl G = None \<Longrightarrow> p < length (heap (mach s)) \<Longrightarrow>
           g_ty G p = TProd (length (g_vs G)) \<Longrightarrow> p = ends_resolve (vars s)"
  and qinv_shut: "qinv G s \<Longrightarrow> g_cl G \<noteq> None \<Longrightarrow> g_ty G (ends_resolve (vars s)) = TProd (length (g_vs G))
            \<or> g_ty G (ends_resolve (vars s)) = TJunk"
  and qinv_len: "qinv G s \<Longrightarrow> length (results s) = g_k G"
  and qinv_res: "qinv G s \<Longrightarrow> j < g_k G \<Longrightarrow>
           \<exists>g < length (heap (mach s)). results s ! j = VPromise g \<and> g_ty G g = TRes j"
  unfolding qinv_def by simp_all

lemma qinv_start: "qinv ghost0 start"
proof -
  have "minv ghost0 1 {} (init\<lparr>heap := [Pending [], Pending []]\<rparr>)"
    by (rule minvI) (auto simp: ghost0_def init_def den_cell_def less_Suc_eq)
  moreover have "oinv ghost0 (init\<lparr>heap := [Pending [], Pending []]\<rparr>)"
    by (simp add: oinv_def ghost0_def)
  ultimately show ?thesis
    unfolding start_eq by (intro qinvI [where cur = 0]) (auto simp: ghost0_def init_def less_Suc_eq)
qed

lemma oinv_ghost:
  assumes o: "oinv G m" and g: "g_vs G' = g_vs G" "g_cl G' = g_cl G" "g_cells G' = g_cells G"
    "g_end G' = g_end G" and t: "\<And>t. t < length (heap m) \<Longrightarrow> g_ty G' t = g_ty G t"
  shows "oinv G' m"
  unfolding oinv_def
proof (intro conjI allI impI ballI)
  show "length (g_cells G') = length (g_vs G')" using o g unfolding oinv_def by simp
  show "plain v" if "v \<in> set (g_vs G')" for v using o g that unfolding oinv_def by simp
  fix i assume i: "i < length (g_vs G')"
  then have c: "g_cells G ! i < length (objs m)"
    and hd: "get_prop (objs m ! (g_cells G ! i)) (Name ''head'') = g_vs G ! i"
    and tl: "\<exists>t < length (heap m). get_prop (objs m ! (g_cells G ! i)) (Name ''tail'') = VPromise t
                  \<and> g_ty G t = TProd (Suc i)"
    using o g unfolding oinv_def by simp_all
  show "g_cells G' ! i < length (objs m)" using c g by simp
  show "get_prop (objs m ! (g_cells G' ! i)) (Name ''head'') = g_vs G' ! i" using hd g by simp
  show "\<exists>t < length (heap m). get_prop (objs m ! (g_cells G' ! i)) (Name ''tail'') = VPromise t
                  \<and> g_ty G' t = TProd (Suc i)"
    using tl g t by auto
next
  fix r assume "g_cl G' = Some r"
  then have r: "g_cl G = Some r" using g by simp
  show "g_end G' < length (objs m)" "get_prop (objs m ! g_end G') (Name ''tail'') = VObj (g_end G')"
    "\<exists>pr < length (heap m). get_prop (objs m ! g_end G') (Name ''head'') = VPromise pr
                  \<and> heap m ! pr = Settled (Rejected r)"
    using o r g unfolding oinv_def by simp_all
qed

lemma qinv_mono_step:
  assumes q: "qinv G s" and i: "minv G (closed (vars s)) {} m'" "oinv G m'"
    and len: "length (heap (mach s)) \<le> length (heap m')"
    and new: "\<And>p. length (heap (mach s)) \<le> p \<Longrightarrow> p < length (heap m') \<Longrightarrow>
       g_ty G p \<noteq> TProd (length (g_vs G))"
  shows "qinv G (s\<lparr>mach := m'\<rparr>)"
proof -
  obtain cur where cur: "cur < length (heap (mach s))" "ends_promise (vars s) = VPromise cur"
    "g_ty G cur = TCur (g_k G) \<or> g_k G = 0 \<and> g_ty G cur = TProd 0"
    using qinv_cur [OF q] by blast
  show ?thesis
  proof (rule qinvI [where cur = cur])
    show "minv G (closed (vars (s\<lparr>mach := m'\<rparr>))) {} (mach (s\<lparr>mach := m'\<rparr>))" using i by simp
    show "oinv G (mach (s\<lparr>mach := m'\<rparr>))" using i by simp
    show "cur < length (heap (mach (s\<lparr>mach := m'\<rparr>)))" using cur len by simp
    show "ends_promise (vars (s\<lparr>mach := m'\<rparr>)) = VPromise cur" using cur by simp
    show "g_ty G cur = TCur (g_k G) \<or> g_k G = 0 \<and> g_ty G cur = TProd 0" using cur by simp
    show "ends_resolve (vars (s\<lparr>mach := m'\<rparr>)) < length (heap (mach (s\<lparr>mach := m'\<rparr>)))"
      using qinv_end [OF q] len by simp
    show "g_cl G = None \<Longrightarrow> g_ty G (ends_resolve (vars (s\<lparr>mach := m'\<rparr>))) = TProd (length (g_vs G))"
      using qinv_open [OF q] by simp
    show "p = ends_resolve (vars (s\<lparr>mach := m'\<rparr>))"
      if "g_cl G = None" "p < length (heap (mach (s\<lparr>mach := m'\<rparr>)))" "g_ty G p = TProd (length (g_vs G))" for p
    proof -
      have "p < length (heap (mach s))" using new [of p] that by fastforce
      then show ?thesis using qinv_uniq [OF q that(1) _ that(3)] by simp
    qed
    show "g_cl G \<noteq> None \<Longrightarrow> g_ty G (ends_resolve (vars (s\<lparr>mach := m'\<rparr>))) = TProd (length (g_vs G))
            \<or> g_ty G (ends_resolve (vars (s\<lparr>mach := m'\<rparr>))) = TJunk"
      using qinv_shut [OF q] by simp
    show "length (results (s\<lparr>mach := m'\<rparr>)) = g_k G" using qinv_len [OF q] by simp
    show "\<exists>g < length (heap (mach (s\<lparr>mach := m'\<rparr>))). results (s\<lparr>mach := m'\<rparr>) ! j = VPromise g \<and> g_ty G g = TRes j"
      if "j < g_k G" for j
      using qinv_res [OF q that] len by auto
  qed
qed

lemma qinv_turn:
  assumes q: "qinv G s"
  shows "qinv G (apply_op Turn s)"
proof -
  note si = step_inv [OF qinv_minv [OF q] qinv_oinv [OF q]]
  have len: "length (heap (mach s)) \<le> length (heap (step (mach s)))" using si unfolding grows_def by simp
  have "g_ty G p \<noteq> TProd (length (g_vs G))" if "length (heap (mach s)) \<le> p" for p
    using minv_junk [OF qinv_minv [OF q] that] by simp
  then show ?thesis using qinv_mono_step [OF q _ _ len] si by simp
qed

lemma q_when_basic:
  assumes p: "p < length (heap m)"
  shows "length (heap (snd (q_when (VPromise p) h m))) = Suc (length (heap m))"
    and "grows m (snd (q_when (VPromise p) h m))"
proof -
  let ?m' = "snd (q_when (VPromise p) h m)"
  note w = q_when_promise [OF p, where h = h]
  show len: "length (heap ?m') = Suc (length (heap m))"
  proof (cases "\<exists>out. heap m ! p = Settled out")
    case True
    then show ?thesis using w(3) by auto
  next
    case False
    then show ?thesis using w(5) by auto
  qed
  show "grows m ?m'"
    unfolding grows_def
  proof (intro conjI allI impI)
    show "length (objs m) \<le> length (objs ?m')" using w(2) by simp
    show "\<And>a. a < length (objs m) \<Longrightarrow> objs ?m' ! a = objs m ! a" using w(2) by simp
    show "length (heap m) \<le> length (heap ?m')" using len by simp
    fix q out assume q: "q < length (heap m)" "heap m ! q = Settled out"
    show "heap ?m' ! q = Settled out"
    proof (cases "\<exists>out. heap m ! p = Settled out")
      case True
      then show ?thesis using w(3) q by (auto simp: nth_append)
    next
      case False
      then have "q \<noteq> p" using q by auto
      then show ?thesis using w(5) False q by (auto simp: nth_append)
    qed
  qed
qed

lemma get_eq:
  assumes "ends_promise q = VPromise cur" and "cur < length (heap m)"
  shows "get (q, m) =
    (VPromise (Suc (Suc (length (heap m)))), q\<lparr>ends_promise := VPromise (Suc (length (heap m)))\<rparr>,
     snd (q_when (VPromise (length (heap m))) (KGetResult (closed q))
       (snd (q_when (VPromise cur) (KGet (Name ''tail''))
         (snd (q_when (VPromise cur) (KGet (Name ''head'')) m))))))"
proof -
  let ?m1 = "snd (q_when (VPromise cur) (KGet (Name ''head'')) m)"
  let ?m2 = "snd (q_when (VPromise cur) (KGet (Name ''tail'')) ?m1)"
  have l1: "length (heap ?m1) = Suc (length (heap m))" by (rule q_when_basic(1) [OF assms(2)])
  then have c1: "cur < length (heap ?m1)" using assms(2) by simp
  have l2: "length (heap ?m2) = Suc (Suc (length (heap m)))" using q_when_basic(1) [OF c1] l1 by simp
  have f1: "fst (q_when (VPromise cur) (KGet (Name ''head'')) m) = VPromise (length (heap m))"
    by (rule q_when_promise(1) [OF assms(2)])
  have f2: "fst (q_when (VPromise cur) (KGet (Name ''tail'')) ?m1) = VPromise (Suc (length (heap m)))"
    using q_when_promise(1) [OF c1] l1 by simp
  have f3: "fst (q_when (VPromise (length (heap m))) (KGetResult (closed q)) ?m2)
      = VPromise (Suc (Suc (length (heap m))))"
    using q_when_promise(1) [of "length (heap m)" ?m2] l2 by simp
  show ?thesis
    unfolding get_def q_get_def using assms(1) f1 f2 f3
    by (simp add: split_beta Let_def)
qed

lemma qinv_get:
  assumes q: "qinv G s"
  shows "\<exists>G'. qinv G' (apply_op Get s) \<and> g_vs G' = g_vs G \<and> g_cl G' = g_cl G \<and> g_k G' = Suc (g_k G)
    \<and> (\<forall>p. g_ty G' p = (if p = Suc (Suc (length (heap (mach s)))) then TRes (g_k G)
          else if p = Suc (length (heap (mach s))) then TCur (Suc (g_k G))
          else if p = length (heap (mach s)) then THead (g_k G) else g_ty G p))"
proof -
  let ?m = "mach s" and ?c = "closed (vars s)" and ?k = "g_k G"
  let ?n = "length (heap ?m)"
  obtain cur where cur: "cur < ?n" "ends_promise (vars s) = VPromise cur"
    "g_ty G cur = TCur ?k \<or> ?k = 0 \<and> g_ty G cur = TProd 0"
    using qinv_cur [OF q] by blast
  let ?m1 = "snd (q_when (VPromise cur) (KGet (Name ''head'')) ?m)"
  let ?m2 = "snd (q_when (VPromise cur) (KGet (Name ''tail'')) ?m1)"
  let ?m3 = "snd (q_when (VPromise ?n) (KGetResult ?c) ?m2)"
  let ?G0 = "G\<lparr>g_k := Suc ?k\<rparr>"
  let ?G1 = "?G0\<lparr>g_ty := (g_ty ?G0)(?n := THead ?k)\<rparr>"
  let ?G2 = "?G1\<lparr>g_ty := (g_ty ?G1)(Suc ?n := TCur (Suc ?k))\<rparr>"
  let ?G3 = "?G2\<lparr>g_ty := (g_ty ?G2)(Suc (Suc ?n) := TRes ?k)\<rparr>"
  have l1: "length (heap ?m1) = Suc ?n" and mn1: "grows ?m ?m1" using q_when_basic [OF cur(1)] by auto
  have c1: "cur < length (heap ?m1)" using cur(1) l1 by simp
  have l2: "length (heap ?m2) = Suc (Suc ?n)" and mn2: "grows ?m1 ?m2" using q_when_basic [OF c1] l1 by auto
  have n2: "?n < length (heap ?m2)" using l2 by simp
  have l3: "length (heap ?m3) = Suc (Suc (Suc ?n))" and mn3: "grows ?m2 ?m3" using q_when_basic [OF n2] l2 by auto
  have mn: "grows ?m ?m3" using grows_trans [OF grows_trans [OF mn1 mn2] mn3] .
  have i0: "minv ?G0 ?c {} ?m" by (rule minv_k [OF qinv_minv [OF q]])
  have i1: "minv ?G1 ?c {} ?m1"
    by (rule minv_when [OF i0 cur(1)]) (use cur(3) in auto)
  have i2: "minv ?G2 ?c {} ?m2"
    using minv_when [OF i1 c1, of "KGet (Name ''tail'')" "TCur (Suc ?k)"] cur l1 by auto
  have i3: "minv ?G3 ?c {} ?m3"
    using minv_when [OF i2 n2, of "KGetResult ?c" "TRes ?k"] l2 by auto
  have gty: "\<And>p. g_ty ?G3 p = (if p = Suc (Suc ?n) then TRes ?k else if p = Suc ?n then TCur (Suc ?k)
      else if p = ?n then THead ?k else g_ty G p)"
    by simp
  have o3: "oinv ?G3 ?m3"
    by (rule oinv_mono [OF oinv_ghost [OF qinv_oinv [OF q]] mn]) simp_all
  have ap: "apply_op Get s = s\<lparr>vars := (vars s)\<lparr>ends_promise := VPromise (Suc ?n)\<rparr>, mach := ?m3,
      results := results s @ [VPromise (Suc (Suc ?n))]\<rparr>"
    using get_eq [OF cur(2,1)] by simp
  have en: "ends_resolve (vars s) < ?n" by (rule qinv_end [OF q])
  have "qinv ?G3 (apply_op Get s)"
    unfolding ap
  proof (rule qinvI [where cur = "Suc ?n"], goal_cases)
    case 1 show ?case using i3 by simp
  next
    case 2 show ?case using o3 by simp
  next
    case 3 show ?case using l3 by simp
  next
    case 4 show ?case by simp
  next
    case 5 show ?case by simp
  next
    case 6 show ?case using en l3 by simp
  next
    case 7 then show ?case using qinv_open [OF q] en by simp
  next
    case (8 p)
    then have "p < ?n" by (auto split: if_splits simp: l3)
    then show ?case using 8 qinv_uniq [OF q, of p] by simp
  next
    case 9 then show ?case using qinv_shut [OF q] en by simp
  next
    case 10 show ?case using qinv_len [OF q] by simp
  next
    case (11 j)
    show ?case
    proof (cases "j < ?k")
      case True
      then obtain g where "g < ?n" "results s ! j = VPromise g" "g_ty G g = TRes j"
        using qinv_res [OF q] by blast
      then show ?thesis using True qinv_len [OF q] l3
        by (intro exI [of _ g]) (simp add: nth_append)
    next
      case False
      then have "j = ?k" using 11 by simp
      then show ?thesis using qinv_len [OF q] l3
        by (intro exI [of _ "Suc (Suc ?n)"]) (simp add: nth_append)
    qed
  qed
  then show ?thesis using gty by (intro exI [of _ ?G3]) simp
qed

lemma put_eq:
  "put v (q, m) =
     (q\<lparr>ends_resolve := length (heap m)\<rparr>,
      resolve (ends_resolve q) (VObj (length (objs m)))
        (m\<lparr>heap := heap m @ [Pending []],
           objs := objs m @ [object_of [(Name ''head'', v), (Name ''tail'', VPromise (length (heap m)))]]\<rparr>))"
  by (simp add: put_def q_defer_def new_promise_def new_obj_def Let_def)

lemma close_eq:
  "close reason (q, m) =
     (VPromise (closed q), q,
      resolve (ends_resolve q) (VObj (length (objs m)))
        (m\<lparr>heap := heap m @ [Settled (Rejected reason)],
           objs := objs m @ [\<lparr>kind = Plain,
             props = [(Name ''head'', VPromise (length (heap m))), (Name ''tail'', VObj (length (objs m)))],
             inherited = []\<rparr>]\<rparr>))"
  by (simp add: close_def q_reject_def new_promise_def new_obj_def set_prop_def object_of_def Let_def)

lemma closed_junk_op:
  assumes inv: "minv G c {} m" and o: "oinv G m" and cl: "g_cl G \<noteq> None"
    and e: "e < length (heap m)"
    and te: "g_ty G e = TProd (length (g_vs G)) \<or> g_ty G e = TJunk"
    and st: "waiters st = []" "\<And>t ws. st \<noteq> Following t ws"
  shows "minv G c {} (resolve e (VObj a) (m\<lparr>heap := heap m @ [st], objs := objs m @ [ob]\<rparr>))"
    and "oinv G (resolve e (VObj a) (m\<lparr>heap := heap m @ [st], objs := objs m @ [ob]\<rparr>))"
    and "length (heap (resolve e (VObj a) (m\<lparr>heap := heap m @ [st], objs := objs m @ [ob]\<rparr>)))
          = Suc (length (heap m))"
proof -
  let ?m2 = "m\<lparr>heap := heap m @ [st], objs := objs m @ [ob]\<rparr>"
  let ?m3 = "resolve e (VObj a) ?m2"
  have i2: "minv G c {} ?m2" by (rule minv_alloc_junk [OF inv st]) simp_all
  have g2: "grows m ?m2" unfolding grows_def by (simp add: nth_append)
  have e2: "e < length (heap ?m2)" using e by simp
  have r: "minv G c {} ?m3 \<and> grows ?m2 ?m3 \<and> length (heap ?m3) = length (heap ?m2)"
  proof (cases "\<exists>ws. heap ?m2 ! e = Pending ws")
    case True
    then obtain ws where he: "heap ?m2 ! e = Pending ws" by blast
    have tj: "g_ty G e = TJunk"
    proof (rule ccontr)
      assume "g_ty G e \<noteq> TJunk"
      then have tp: "g_ty G e = TProd (length (g_vs G))" using te by simp
      have "den_cell G (length (g_vs G)) \<noteq> None" using cl by (auto simp: den_cell_def)
      then show False using minv_prod [OF i2 e2 tp] he by auto
    qed
    have nw: "ws = []"
    proof (cases ws)
      case (Cons w ws')
      then have "(fst w, snd w) \<in> set (waiters (heap ?m2 ! e))" using he by simp
      then show ?thesis using minv_wait [OF i2 e2] tj by fastforce
    qed simp
    have uns: "\<forall>o'. heap ?m2 ! e \<noteq> Settled o'" using he by simp
    have eq: "?m3 = ?m2\<lparr>heap := (heap ?m2)[e := Settled (Fulfilled (VObj a))],
        queue := queue ?m2 @ map (\<lambda>(h, r). (h, r, Fulfilled (VObj a))) (waiters (heap ?m2 ! e))\<rparr>"
      using resolve_eq(1) [OF e2 he, of "VObj a"] settle_eq(1) [OF e2 uns] by (simp add: plain_def)
    have hq: "heap ?m3 = (heap ?m2)[e := Settled (Fulfilled (VObj a))]"
      "queue ?m3 = queue ?m2 @ map (\<lambda>(h, r). (h, r, Fulfilled (VObj a))) (waiters (heap ?m2 ! e))"
      "objs ?m3 = objs ?m2"
      by (simp_all add: eq)
    have "minv G c ({} - {(False, e), (True, e)}) ?m3"
      by (rule minv_settle [OF i2 e2 _ _ _ _ hq(1,2)]) (use he tj nw in auto)
    moreover have "grows ?m2 ?m3"
      unfolding grows_def
    proof (intro conjI allI impI)
      fix p o' assume "p < length (heap ?m2)" "heap ?m2 ! p = Settled o'"
      moreover from this have "p \<noteq> e" using he by auto
      ultimately show "heap ?m3 ! p = Settled o'" using hq by simp
    qed (simp_all add: hq)
    ultimately show ?thesis using hq by simp
  next
    case False
    then have "?m3 = ?m2" using resolve_eq(4) by blast
    then show ?thesis using i2 grows_refl by simp
  qed
  show "minv G c {} ?m3" using r by simp
  show "oinv G ?m3" using oinv_mono [OF o grows_trans [OF g2]] r by simp
  show "length (heap ?m3) = Suc (length (heap m))" using r by simp
qed

lemma qinv_put_closed:
  assumes q: "qinv G s" and cl: "g_cl G \<noteq> None"
  shows "qinv G (apply_op (Put v) s)"
proof -
  let ?m = "mach s" and ?e = "ends_resolve (vars s)"
  let ?n = "length (heap ?m)"
  let ?m3 = "resolve ?e (VObj (length (objs ?m)))
        (?m\<lparr>heap := heap ?m @ [Pending []],
           objs := objs ?m @ [object_of [(Name ''head'', v), (Name ''tail'', VPromise ?n)]]\<rparr>)"
  have ap: "apply_op (Put v) s = s\<lparr>vars := (vars s)\<lparr>ends_resolve := ?n\<rparr>, mach := ?m3\<rparr>"
    by (simp add: put_eq)
  note j = closed_junk_op [OF qinv_minv [OF q] qinv_oinv [OF q] cl qinv_end [OF q] qinv_shut [OF q cl],
      of "Pending []" "length (objs ?m)" "object_of [(Name ''head'', v), (Name ''tail'', VPromise ?n)]"]
  have l3: "length (heap ?m3) = Suc ?n" using j(3) by simp
  obtain cur where cur: "cur < ?n" "ends_promise (vars s) = VPromise cur"
    "g_ty G cur = TCur (g_k G) \<or> g_k G = 0 \<and> g_ty G cur = TProd 0"
    using qinv_cur [OF q] by blast
  show ?thesis
    unfolding ap
  proof (rule qinvI [where cur = cur], goal_cases)
    case 1 show ?case using j(1) by simp
  next
    case 2 show ?case using j(2) by simp
  next
    case 3 show ?case using cur l3 by simp
  next
    case 4 show ?case using cur by simp
  next
    case 5 show ?case using cur by simp
  next
    case 6 show ?case using l3 by simp
  next
    case 7 then show ?case using cl by simp
  next
    case 8 then show ?case using cl by simp
  next
    case 9 show ?case using minv_junk [OF qinv_minv [OF q], of ?n] by simp
  next
    case 10 show ?case using qinv_len [OF q] by simp
  next
    case (11 j) then show ?case using qinv_res [OF q, of j] l3 by auto
  qed
qed

lemma qinv_close_closed:
  assumes q: "qinv G s" and cl: "g_cl G \<noteq> None"
  shows "qinv G (apply_op (Close reason) s)"
proof -
  let ?m = "mach s" and ?e = "ends_resolve (vars s)"
  let ?n = "length (heap ?m)"
  let ?ob = "\<lparr>kind = Plain,
             props = [(Name ''head'', VPromise ?n), (Name ''tail'', VObj (length (objs ?m)))],
             inherited = []\<rparr>"
  let ?m3 = "resolve ?e (VObj (length (objs ?m)))
        (?m\<lparr>heap := heap ?m @ [Settled (Rejected reason)], objs := objs ?m @ [?ob]\<rparr>)"
  have ap: "apply_op (Close reason) s = s\<lparr>vars := vars s, mach := ?m3\<rparr>"
    by (simp add: close_eq)
  note j = closed_junk_op [OF qinv_minv [OF q] qinv_oinv [OF q] cl qinv_end [OF q] qinv_shut [OF q cl],
      of "Settled (Rejected reason)" "length (objs ?m)" ?ob]
  have l3: "length (heap ?m3) = Suc ?n" using j(3) by simp
  have "qinv G (s\<lparr>mach := ?m3\<rparr>)"
  proof (rule qinv_mono_step [OF q])
    show "minv G (closed (vars s)) {} ?m3" using j(1) by simp
    show "oinv G ?m3" using j(2) by simp
    show "?n \<le> length (heap ?m3)" using l3 by simp
    show "g_ty G p \<noteq> TProd (length (g_vs G))" if "?n \<le> p" for p
      using minv_junk [OF qinv_minv [OF q] that] by simp
  qed
  then show ?thesis unfolding ap by simp
qed

lemma oinvI:
  assumes "length (g_cells G) = length (g_vs G)"
    and "\<And>i. i < length (g_vs G) \<Longrightarrow> g_cells G ! i < length (objs m)
            \<and> get_prop (objs m ! (g_cells G ! i)) (Name ''head'') = g_vs G ! i
            \<and> (\<exists>t < length (heap m). get_prop (objs m ! (g_cells G ! i)) (Name ''tail'') = VPromise t
                  \<and> g_ty G t = TProd (Suc i))"
    and "\<And>r. g_cl G = Some r \<Longrightarrow> g_end G < length (objs m)
            \<and> get_prop (objs m ! g_end G) (Name ''tail'') = VObj (g_end G)
            \<and> (\<exists>pr < length (heap m). get_prop (objs m ! g_end G) (Name ''head'') = VPromise pr
                  \<and> heap m ! pr = Settled (Rejected r))"
    and "\<And>v. v \<in> set (g_vs G) \<Longrightarrow> plain v"
  shows "oinv G m"
  unfolding oinv_def using assms by blast

lemma open_producer:
  assumes q: "qinv G s" and op: "g_cl G = None"
  shows "\<exists>ws. heap (mach s) ! ends_resolve (vars s) = Pending ws"
proof -
  note inv = qinv_minv [OF q] and e = qinv_end [OF q] and te = qinv_open [OF q op]
  have "den_cell G (length (g_vs G)) = None" using op by (simp add: den_cell_def)
  then show ?thesis using minv_prod [OF inv e te] minv_set [OF inv e] te by auto
qed

lemma qinv_put_open:
  assumes q: "qinv G s" and op: "g_cl G = None" and pv: "plain v"
  shows "qinv (G\<lparr>g_vs := g_vs G @ [v], g_cells := g_cells G @ [length (objs (mach s))],
                 g_ty := (g_ty G)(length (heap (mach s)) := TProd (Suc (length (g_vs G))))\<rparr>)
           (apply_op (Put v) s)"
    (is "qinv ?G' _")
proof -
  let ?m = "mach s" and ?e = "ends_resolve (vars s)" and ?c = "closed (vars s)"
  let ?n = "length (heap ?m)" and ?a = "length (objs ?m)" and ?nv = "length (g_vs G)"
  let ?ob = "object_of [(Name ''head'', v), (Name ''tail'', VPromise ?n)]"
  let ?m2 = "?m\<lparr>heap := heap ?m @ [Pending []], objs := objs ?m @ [?ob]\<rparr>"
  let ?m3 = "resolve ?e (VObj ?a) ?m2"
  note inv = qinv_minv [OF q] and o = qinv_oinv [OF q] and e = qinv_end [OF q]
    and te = qinv_open [OF q op]
  have ap: "apply_op (Put v) s = s\<lparr>vars := (vars s)\<lparr>ends_resolve := ?n\<rparr>, mach := ?m3\<rparr>"
    by (simp add: put_eq)
  obtain ws where he: "heap ?m ! ?e = Pending ws" using open_producer [OF q op] by blast
  have e2: "?e < length (heap ?m2)" and he2: "heap ?m2 ! ?e = Pending ws"
    using e he by (simp_all add: nth_append)
  have uns: "\<forall>o'. heap ?m2 ! ?e \<noteq> Settled o'" using he2 by simp
  have eq: "?m3 = ?m2\<lparr>heap := (heap ?m2)[?e := Settled (Fulfilled (VObj ?a))],
        queue := queue ?m2 @ map (\<lambda>(h, r). (h, r, Fulfilled (VObj ?a))) (waiters (heap ?m2 ! ?e))\<rparr>"
    using resolve_eq(1) [OF e2 he2, of "VObj ?a"] settle_eq(1) [OF e2 uns] by (simp add: plain_def)
  have hq: "heap ?m3 = (heap ?m @ [Pending []])[?e := Settled (Fulfilled (VObj ?a))]"
    "queue ?m3 = queue ?m @ map (\<lambda>(h, r). (h, r, Fulfilled (VObj ?a))) (waiters (heap ?m ! ?e))"
    "objs ?m3 = objs ?m @ [?ob]"
    using he he2 by (simp_all add: eq)
  have lc: "length (g_cells G) = ?nv" using o unfolding oinv_def by simp
  have dm: "den ?G' t = Some o'" if "den G t = Some o'" for t o'
    using that op lc by (cases t) (auto simp: den_cell_def den_head_def nth_append split: if_splits)
  have i3: "minv ?G' ?c {} ?m3"
  proof (rule minv_produce [OF inv e te _ op _ _ dm _ _ _ _ _ hq(1,2)])
    show "\<And>p. p < ?n \<Longrightarrow> g_ty G p = TProd ?nv \<Longrightarrow> p = ?e" using qinv_uniq [OF q op] by simp
    show "g_k ?G' = g_k G" by simp
    show "?nv \<le> length (g_vs ?G')" by simp
    show "den_cell ?G' ?nv = Some (Fulfilled (VObj ?a))" using lc by (simp add: den_cell_def nth_append)
    show "\<And>q. g_ty ?G' q = (if q = ?n then TProd (Suc ?nv) else g_ty G q)" by simp
    show "TProd (Suc ?nv) = TJunk \<or> (\<exists>j. TProd (Suc ?nv) = TProd j \<and> Pending [] = Pending []
        \<and> den_cell ?G' j = None \<and> j \<le> length (g_vs ?G'))"
      using op by (simp add: den_cell_def)
    show "waiters (Pending []) = []" by simp
    show "\<And>t ws. Pending [] \<noteq> Following t ws" by simp
  qed
  have l3: "length (heap ?m3) = Suc ?n" using hq(1) by simp
  have o3: "oinv ?G' ?m3"
  proof (rule oinvI)
    show "length (g_cells ?G') = length (g_vs ?G')" using lc by simp
    show "plain x" if "x \<in> set (g_vs ?G')" for x using that o pv unfolding oinv_def by auto
    show "g_end ?G' < length (objs ?m3)
      \<and> get_prop (objs ?m3 ! g_end ?G') (Name ''tail'') = VObj (g_end ?G')
      \<and> (\<exists>pr<length (heap ?m3). get_prop (objs ?m3 ! g_end ?G') (Name ''head'') = VPromise pr
        \<and> heap ?m3 ! pr = Settled (Rejected r))" if "g_cl ?G' = Some r" for r
      using that op by simp
    fix i assume i: "i < length (g_vs ?G')"
    show "g_cells ?G' ! i < length (objs ?m3)
      \<and> get_prop (objs ?m3 ! (g_cells ?G' ! i)) (Name ''head'') = g_vs ?G' ! i
      \<and> (\<exists>t<length (heap ?m3). get_prop (objs ?m3 ! (g_cells ?G' ! i)) (Name ''tail'') = VPromise t
            \<and> g_ty ?G' t = TProd (Suc i))"
    proof (cases "i < ?nv")
      case True
      then obtain t where c: "g_cells G ! i < ?a"
        "get_prop (objs ?m ! (g_cells G ! i)) (Name ''head'') = g_vs G ! i"
        "t < ?n" "get_prop (objs ?m ! (g_cells G ! i)) (Name ''tail'') = VPromise t"
        "g_ty G t = TProd (Suc i)"
        using o unfolding oinv_def by blast
      then show ?thesis using True lc l3 hq(3)
        by (intro conjI exI [of _ t]) (simp_all add: nth_append)
    next
      case False
      then have "i = ?nv" using i by simp
      then show ?thesis using lc l3 hq(3)
        by (intro conjI exI [of _ ?n]) (simp_all add: nth_append get_prop_def object_of_def)
    qed
  qed
  obtain cur where cur: "cur < ?n" "ends_promise (vars s) = VPromise cur"
    "g_ty G cur = TCur (g_k G) \<or> g_k G = 0 \<and> g_ty G cur = TProd 0"
    using qinv_cur [OF q] by blast
  show ?thesis
    unfolding ap
  proof (rule qinvI [where cur = cur], goal_cases)
    case 1 show ?case using i3 by simp
  next
    case 2 show ?case using o3 by simp
  next
    case 3 show ?case using cur l3 by simp
  next
    case 4 show ?case using cur by simp
  next
    case 5 show ?case using cur by auto
  next
    case 6 show ?case using l3 by simp
  next
    case 7 show ?case by simp
  next
    case (8 p)
    have "p = ?n"
    proof (rule ccontr)
      assume "p \<noteq> ?n"
      then have "p < ?n" "g_ty G p = TProd (Suc ?nv)" using 8 l3 by auto
      then show False using minv_bnd [OF inv, of p] by simp
    qed
    then show ?case by simp
  next
    case 9 then show ?case using op by simp
  next
    case 10 show ?case using qinv_len [OF q] by simp
  next
    case (11 j)
    then obtain g where "g < ?n" "results s ! j = VPromise g" "g_ty G g = TRes j"
      using qinv_res [OF q, of j] by auto
    then show ?case using l3 by (intro exI [of _ g]) auto
  qed
qed

lemma qinv_close_open:
  assumes q: "qinv G s" and op: "g_cl G = None"
  shows "qinv (G\<lparr>g_cl := Some reason, g_end := length (objs (mach s))\<rparr>) (apply_op (Close reason) s)"
    (is "qinv ?G' _")
proof -
  let ?m = "mach s" and ?e = "ends_resolve (vars s)" and ?c = "closed (vars s)"
  let ?n = "length (heap ?m)" and ?a = "length (objs ?m)" and ?nv = "length (g_vs G)"
  let ?ob = "\<lparr>kind = Plain, props = [(Name ''head'', VPromise ?n), (Name ''tail'', VObj ?a)], inherited = []\<rparr>"
  let ?m2 = "?m\<lparr>heap := heap ?m @ [Settled (Rejected reason)], objs := objs ?m @ [?ob]\<rparr>"
  let ?m3 = "resolve ?e (VObj ?a) ?m2"
  note inv = qinv_minv [OF q] and o = qinv_oinv [OF q] and e = qinv_end [OF q]
    and te = qinv_open [OF q op]
  have ap: "apply_op (Close reason) s = s\<lparr>vars := vars s, mach := ?m3\<rparr>"
    by (simp add: close_eq)
  obtain ws where he: "heap ?m ! ?e = Pending ws" using open_producer [OF q op] by blast
  have e2: "?e < length (heap ?m2)" and he2: "heap ?m2 ! ?e = Pending ws"
    using e he by (simp_all add: nth_append)
  have uns: "\<forall>o'. heap ?m2 ! ?e \<noteq> Settled o'" using he2 by simp
  have eq: "?m3 = ?m2\<lparr>heap := (heap ?m2)[?e := Settled (Fulfilled (VObj ?a))],
        queue := queue ?m2 @ map (\<lambda>(h, r). (h, r, Fulfilled (VObj ?a))) (waiters (heap ?m2 ! ?e))\<rparr>"
    using resolve_eq(1) [OF e2 he2, of "VObj ?a"] settle_eq(1) [OF e2 uns] by (simp add: plain_def)
  have hq: "heap ?m3 = (heap ?m @ [Settled (Rejected reason)])[?e := Settled (Fulfilled (VObj ?a))]"
    "queue ?m3 = queue ?m @ map (\<lambda>(h, r). (h, r, Fulfilled (VObj ?a))) (waiters (heap ?m ! ?e))"
    "objs ?m3 = objs ?m @ [?ob]"
    using he he2 by (simp_all add: eq)
  have dm: "den ?G' t = Some o'" if "den G t = Some o'" for t o'
    using that op by (cases t) (auto simp: den_cell_def den_head_def split: if_splits)
  have i3: "minv ?G' ?c {} ?m3"
  proof (rule minv_produce [OF inv e te _ op _ _ dm _ _ _ _ _ hq(1,2)])
    show "\<And>p. p < ?n \<Longrightarrow> g_ty G p = TProd ?nv \<Longrightarrow> p = ?e" using qinv_uniq [OF q op] by simp
    show "g_k ?G' = g_k G" by simp
    show "?nv \<le> length (g_vs ?G')" by simp
    show "den_cell ?G' ?nv = Some (Fulfilled (VObj ?a))" by (simp add: den_cell_def)
    show "\<And>q. g_ty ?G' q = (if q = ?n then TJunk else g_ty G q)"
      using minv_junk [OF inv, of ?n] by simp
    show "TJunk = TJunk \<or> (\<exists>j. TJunk = TProd j \<and> Settled (Rejected reason) = Pending []
        \<and> den_cell ?G' j = None \<and> j \<le> length (g_vs ?G'))"
      by simp
    show "waiters (Settled (Rejected reason)) = []" by simp
    show "\<And>t ws. Settled (Rejected reason) \<noteq> Following t ws" by simp
  qed
  have l3: "length (heap ?m3) = Suc ?n" using hq(1) by simp
  have o3: "oinv ?G' ?m3"
  proof (rule oinvI)
    show "length (g_cells ?G') = length (g_vs ?G')" using o unfolding oinv_def by simp
    show "plain x" if "x \<in> set (g_vs ?G')" for x using that o unfolding oinv_def by auto
    show "g_end ?G' < length (objs ?m3)
      \<and> get_prop (objs ?m3 ! g_end ?G') (Name ''tail'') = VObj (g_end ?G')
      \<and> (\<exists>pr<length (heap ?m3). get_prop (objs ?m3 ! g_end ?G') (Name ''head'') = VPromise pr
        \<and> heap ?m3 ! pr = Settled (Rejected r))" if "g_cl ?G' = Some r" for r
      using that hq(1,3) e l3 by (intro conjI exI [of _ ?n]) (simp_all add: get_prop_def nth_append)
    fix i assume i: "i < length (g_vs ?G')"
    then obtain t where c: "g_cells G ! i < ?a"
      "get_prop (objs ?m ! (g_cells G ! i)) (Name ''head'') = g_vs G ! i"
      "t < ?n" "get_prop (objs ?m ! (g_cells G ! i)) (Name ''tail'') = VPromise t"
      "g_ty G t = TProd (Suc i)"
      using o unfolding oinv_def by auto
    then show "g_cells ?G' ! i < length (objs ?m3)
      \<and> get_prop (objs ?m3 ! (g_cells ?G' ! i)) (Name ''head'') = g_vs ?G' ! i
      \<and> (\<exists>t<length (heap ?m3). get_prop (objs ?m3 ! (g_cells ?G' ! i)) (Name ''tail'') = VPromise t
            \<and> g_ty ?G' t = TProd (Suc i))"
      using l3 hq(3) by (intro conjI exI [of _ t]) (simp_all add: nth_append)
  qed
  obtain cur where cur: "cur < ?n" "ends_promise (vars s) = VPromise cur"
    "g_ty G cur = TCur (g_k G) \<or> g_k G = 0 \<and> g_ty G cur = TProd 0"
    using qinv_cur [OF q] by blast
  show ?thesis
    unfolding ap
  proof (rule qinvI [where cur = cur], goal_cases)
    case 1 show ?case using i3 by simp
  next
    case 2 show ?case using o3 by simp
  next
    case 3 show ?case using cur l3 by simp
  next
    case 4 show ?case using cur by simp
  next
    case 5 show ?case using cur by auto
  next
    case 6 show ?case using e l3 by simp
  next
    case 7 then show ?case by simp
  next
    case 8 then show ?case by simp
  next
    case 9 show ?case using te by simp
  next
    case 10 show ?case using qinv_len [OF q] by simp
  next
    case (11 j)
    then obtain g where "g < ?n" "results s ! j = VPromise g" "g_ty G g = TRes j"
      using qinv_res [OF q, of j] by auto
    then show ?case using l3 by (intro exI [of _ g]) auto
  qed
qed

lemma settle_frame:
  "length (heap (settle d out m)) = length (heap m)"
  "p < length (heap m) \<Longrightarrow> heap m ! p = Settled o' \<Longrightarrow> heap (settle d out m) ! p = Settled o'"
  "c \<noteq> d \<Longrightarrow> heap (settle d out m) ! c = heap m ! c"
  by (auto simp: settle_def nth_list_update split: pstate.splits)

lemma resolve_frame:
  "length (heap (resolve d v m)) = length (heap m)"
  "p < length (heap m) \<Longrightarrow> heap m ! p = Settled o' \<Longrightarrow> heap (resolve d v m) ! p = Settled o'"
  "c \<noteq> d \<Longrightarrow> heap (resolve d v m) ! c = Settled o' \<Longrightarrow> heap m ! c = Settled o'"
  by (auto simp: resolve_def settle_def add_waiter_def nth_list_update
      split: pstate.splits val.splits if_splits)

lemma q_when_unsettled:
  assumes "c < length (heap m)" and "heap (snd (q_when v h m)) ! c = Settled o'"
  shows "heap m ! c = Settled o'"
  using assms
  by (auto simp: q_when_def q_defer_def new_promise_def subscribe_def add_waiter_def nth_append
      nth_list_update split: pstate.splits val.splits if_splits)

lemma res_not_following:
  assumes inv: "minv G c ex m" and p: "p < length (heap m)" and t: "g_ty G p = TRes i"
    and ex: "(True, p) \<notin> ex"
  shows "heap m ! p \<noteq> Following t' ws"
proof
  assume "heap m ! p = Following t' ws"
  then have "covered m True p" using minv_covf [OF inv p _ ex] by simp
  then consider h out where "(h, p, out) \<in> set (queue m)" "h = KLink"
    | p' h where "p' < length (heap m)" "(h, p) \<in> set (waiters (heap m ! p'))" "h = KLink"
    unfolding covered_def by auto
  then show False
  proof cases
    case 1
    then obtain ty where "wt c ty KLink (g_ty G p)" using minv_task [OF inv, of h p out] by auto
    then show False using t by (cases ty) auto
  next
    case 2
    then have "wt c (g_ty G p') KLink (g_ty G p)" using minv_wait [OF inv, of p' h p] by simp
    then show False using t by (cases "g_ty G p'") auto
  qed
qed

lemma finish_other:
  assumes "c \<noteq> r" and "c < length (heap m)" and "heap (finish r (res, m)) ! c = Settled o'"
  shows "heap m ! c = Settled o'"
proof (cases res)
  case (Return v)
  then show ?thesis using assms resolve_frame(3) [of c r v m o'] by (simp add: finish_def)
next
  case (Throw e)
  let ?m1 = "m\<lparr>heap := heap m @ [Settled (Rejected e)]\<rparr>"
  have "heap (resolve r (VPromise (length (heap m))) ?m1) ! c = Settled o'"
    using assms(3) Throw by (simp add: finish_def reject_def q_reject_def new_promise_def)
  then have "heap ?m1 ! c = Settled o'" by (rule resolve_frame(3) [OF assms(1)])
  then show ?thesis using assms(2) by (simp add: nth_append)
qed

lemma body_get: "\<exists>res. body (KGet k) out m = (res, m)"
  by (cases out; cases "case out of Fulfilled v \<Rightarrow> v | Rejected v \<Rightarrow> v") auto

lemma step_closed:
  assumes inv: "minv G c {} m" and o: "oinv G m" and s: "heap (step m) ! c = Settled out"
  shows "heap m ! c = Settled out
    \<or> (\<exists>p < length (heap (step m)). \<exists>i r. g_ty G p = TRes i \<and> heap (step m) ! p = Settled (Rejected r))"
proof (cases "queue m")
  case Nil
  then show ?thesis using s by (simp add: step_def)
next
  case (Cons t rest)
  obtain h r out' where t: "t = (h, r, out')" by (cases t) auto
  have q: "queue m = (h, r, out') # rest" using Cons t by simp
  let ?m0 = "m\<lparr>queue := rest\<rparr>"
  note dq = dequeued [OF inv o q]
  obtain ty where ty: "den G ty = Some out'" "wt c ty h (g_ty G r)"
    using minv_task [OF inv, of h r out'] q by auto
  have cn: "c < length (heap m)" by (rule minv_c_lt [OF inv])
  have tc: "g_ty G c = TClosed" using minv_cl [OF inv cn] by simp
  have rc: "c \<noteq> r" using ty(2) tc by (cases ty) auto
  have hk: "h = KLink \<or> (\<exists>k. h = KGet k) \<or> h = KGetResult c" using ty(2) by (cases ty) auto
  show ?thesis
  proof (cases "h = KGetResult c \<and> (\<exists>reason. out' = Rejected reason)")
    case False
    have "heap ?m0 ! c = Settled out"
    proof -
      consider "h = KLink" | k where "h = KGet k" | v where "h = KGetResult c" "out' = Fulfilled v"
        using hk False by (cases out') auto
      then show ?thesis
      proof cases
        case 1
        then have "step m = settle r out' ?m0" using dq(3) by simp
        then show ?thesis using s settle_frame(3) [OF rc, of out' ?m0] by simp
      next
        case 2
        obtain res where "body (KGet k) out' ?m0 = (res, ?m0)" using body_get by blast
        then have "step m = finish r (res, ?m0)" using dq(3) 2 by simp
        then show ?thesis using finish_other [OF rc, of ?m0 res out] s cn by simp
      next
        case 3
        then have "step m = finish r (Return v, ?m0)" using dq(3) by simp
        then show ?thesis using finish_other [OF rc, of ?m0 "Return v" out] s cn by simp
      qed
    qed
    then show ?thesis by simp
  next
    case True
    then obtain reason where h: "h = KGetResult c" and out': "out' = Rejected reason" by blast
    obtain i where ti: "g_ty G r = TRes i" "ty = THead i" using ty(2) h by (cases ty) auto
    have dh: "den_head G i = Some (Rejected reason)" using ty(1) ti out' by simp
    let ?m1 = "resolve c VUndef ?m0"
    let ?m2 = "?m1\<lparr>heap := heap ?m1 @ [Settled (Rejected reason)]\<rparr>"
    let ?p = "length (heap ?m1)"
    have st: "step m = resolve r (VPromise ?p) ?m2"
      using dq(3) h out' by (simp add: finish_def q_reject_def new_promise_def Let_def)
    have l1: "length (heap ?m1) = length (heap m)" using resolve_frame(1) [of c VUndef ?m0] by simp
    have rl: "r < length (heap m)" using dq(4) .
    have r2: "r < length (heap ?m2)" using rl l1 by simp
    have "heap (step m) ! r = Settled (Rejected reason)"
    proof (cases "heap m ! r")
      case (Pending ws)
      have "heap ?m1 ! r = Pending ws"
        using Pending rc rl
        by (auto simp: resolve_def settle_def nth_list_update split: pstate.splits)
      then have p2: "heap ?m2 ! r = Pending ws" using rl l1 by (simp add: nth_append)
      have "resolve r (VPromise ?p) ?m2 = settle r (Rejected reason) ?m2"
        by (rule resolve_eq(2) [OF r2 p2]) simp_all
      then show ?thesis using st p2 r2 by (simp add: settle_def)
    next
      case (Following t' ws)
      then show ?thesis using res_not_following [OF inv rl ti(1), of t' ws] by simp
    next
      case (Settled o')
      then have "den_head G i = Some o'" using minv_set [OF inv rl] ti by simp
      then have "heap ?m0 ! r = Settled (Rejected reason)" using dh Settled by simp
      then have "heap ?m1 ! r = Settled (Rejected reason)"
        using resolve_frame(2) [of r ?m0 "Rejected reason" c VUndef] rl by simp
      then have "heap ?m2 ! r = Settled (Rejected reason)" using rl l1 by (simp add: nth_append)
      then show ?thesis using st resolve_frame(2) [OF r2, of "Rejected reason" r "VPromise ?p"] by simp
    qed
    moreover have "r < length (heap (step m))"
      using st r2 resolve_frame(1) [of r "VPromise ?p" ?m2] by simp
    ultimately show ?thesis using ti(1) by blast
  qed
qed

lemma rinvI:
  assumes "\<And>p i. p < length (heap (mach s)) \<Longrightarrow> g_ty G p = TRes i \<Longrightarrow> results s ! i = VPromise p"
    and "\<And>out. heap (mach s) ! closed (vars s) = Settled out \<Longrightarrow>
           \<exists>p < length (heap (mach s)). \<exists>i r. g_ty G p = TRes i \<and> heap (mach s) ! p = Settled (Rejected r)"
  shows "rinv G s"
  unfolding rinv_def using assms by blast

lemma rinv_res: "rinv G s \<Longrightarrow> p < length (heap (mach s)) \<Longrightarrow> g_ty G p = TRes i \<Longrightarrow> results s ! i = VPromise p"
  and rinv_closed: "rinv G s \<Longrightarrow> heap (mach s) ! closed (vars s) = Settled out \<Longrightarrow>
           \<exists>p < length (heap (mach s)). \<exists>i r. g_ty G p = TRes i \<and> heap (mach s) ! p = Settled (Rejected r)"
  unfolding rinv_def by blast+

lemma rinv_start: "rinv ghost0 start"
  unfolding start_eq by (rule rinvI) (auto simp: ghost0_def init_def less_Suc_eq)

lemma rinv_turn:
  assumes q: "qinv G s" and r: "rinv G s"
  shows "rinv G (apply_op Turn s)"
proof -
  let ?m = "mach s" and ?c = "closed (vars s)"
  note inv = qinv_minv [OF q] and o = qinv_oinv [OF q]
  note si = step_inv [OF inv o]
  have g: "grows ?m (step ?m)" using si by simp
  have ap: "apply_op Turn s = s\<lparr>mach := step ?m\<rparr>" by simp
  show ?thesis
    unfolding ap
  proof (rule rinvI)
    fix p i assume p: "p < length (heap (mach (s\<lparr>mach := step ?m\<rparr>)))" and t: "g_ty G p = TRes i"
    have "p < length (heap ?m)"
    proof (rule ccontr)
      assume "\<not> p < length (heap ?m)"
      then have "g_ty G p = TJunk" using minv_junk [OF inv, of p] by simp
      then show False using t by simp
    qed
    then show "results (s\<lparr>mach := step ?m\<rparr>) ! i = VPromise p" using rinv_res [OF r _ t] by simp
  next
    fix out assume "heap (mach (s\<lparr>mach := step ?m\<rparr>)) ! closed (vars (s\<lparr>mach := step ?m\<rparr>)) = Settled out"
    then have s: "heap (step ?m) ! ?c = Settled out" by simp
    have "\<exists>p < length (heap (step ?m)). \<exists>i r. g_ty G p = TRes i \<and> heap (step ?m) ! p = Settled (Rejected r)"
      using step_closed [OF inv o s]
    proof
      assume "heap ?m ! ?c = Settled out"
      then obtain p i r where p: "p < length (heap ?m)" "g_ty G p = TRes i" "heap ?m ! p = Settled (Rejected r)"
        using rinv_closed [OF r] by blast
      then have "p < length (heap (step ?m))" "heap (step ?m) ! p = Settled (Rejected r)"
        using g unfolding grows_def by auto
      then show ?thesis using p(2) by blast
    qed
    then show "\<exists>p < length (heap (mach (s\<lparr>mach := step ?m\<rparr>))). \<exists>i r. g_ty G p = TRes i
        \<and> heap (mach (s\<lparr>mach := step ?m\<rparr>)) ! p = Settled (Rejected r)"
      by simp
  qed
qed

lemma rinv_produce:
  assumes q: "qinv G s" and r: "rinv G s"
    and m': "mach s' = resolve (ends_resolve (vars s)) v
               ((mach s)\<lparr>heap := heap (mach s) @ [st], objs := X\<rparr>)"
    and c': "closed (vars s') = closed (vars s)" and res: "results s' = results s"
    and ty: "\<And>p. p \<noteq> length (heap (mach s)) \<Longrightarrow> g_ty G' p = g_ty G p"
    and new: "\<And>i. g_ty G' (length (heap (mach s))) \<noteq> TRes i"
  shows "rinv G' s'"
proof (rule rinvI)
  let ?m = "mach s" and ?c = "closed (vars s)" and ?e = "ends_resolve (vars s)"
  let ?n = "length (heap ?m)"
  let ?m2 = "?m\<lparr>heap := heap ?m @ [st], objs := X\<rparr>"
  note inv = qinv_minv [OF q]
  have l: "length (heap (mach s')) = Suc ?n" using m' resolve_frame(1) [of ?e v ?m2] by simp
  have cn: "?c < ?n" by (rule minv_c_lt [OF inv])
  have tc: "g_ty G ?c = TClosed" using minv_cl [OF inv cn] by simp
  have te: "g_ty G ?e = TProd (length (g_vs G)) \<or> g_ty G ?e = TJunk"
    using qinv_open [OF q] qinv_shut [OF q] by (cases "g_cl G") auto
  have ce: "?c \<noteq> ?e" using tc te by auto
  {
    fix p i assume p: "p < length (heap (mach s'))" and t: "g_ty G' p = TRes i"
    have "p \<noteq> ?n" using new t by auto
    then have "p < ?n" "g_ty G p = TRes i" using p l ty t by auto
    then show "results s' ! i = VPromise p" using rinv_res [OF r] res by simp
  }
  {
    fix out assume "heap (mach s') ! closed (vars s') = Settled out"
    then have "heap ?m2 ! ?c = Settled out"
      using m' c' resolve_frame(3) [OF ce, of v ?m2 out] by simp
    then have "heap ?m ! ?c = Settled out" using cn by (simp add: nth_append)
    then obtain p i r' where p: "p < ?n" "g_ty G p = TRes i" "heap ?m ! p = Settled (Rejected r')"
      using rinv_closed [OF r] by blast
    have "heap ?m2 ! p = Settled (Rejected r')" using p by (simp add: nth_append)
    then have "heap (mach s') ! p = Settled (Rejected r')"
      using m' resolve_frame(2) [of p ?m2 "Rejected r'" ?e v] p(1) by simp
    moreover have "g_ty G' p = TRes i" using ty [of p] p by simp
    ultimately show "\<exists>p < length (heap (mach s')). \<exists>i r. g_ty G' p = TRes i
        \<and> heap (mach s') ! p = Settled (Rejected r)"
      using p(1) l by (intro exI [of _ p]) auto
  }
qed

lemma rinv_get:
  assumes q: "qinv G s" and r: "rinv G s"
    and ty: "\<And>p. g_ty G' p = (if p = Suc (Suc (length (heap (mach s)))) then TRes (g_k G)
          else if p = Suc (length (heap (mach s))) then TCur (Suc (g_k G))
          else if p = length (heap (mach s)) then THead (g_k G) else g_ty G p)"
  shows "rinv G' (apply_op Get s)"
proof -
  let ?m = "mach s" and ?c = "closed (vars s)" and ?k = "g_k G"
  let ?n = "length (heap ?m)"
  note inv = qinv_minv [OF q]
  obtain cur where cur: "cur < ?n" "ends_promise (vars s) = VPromise cur"
    using qinv_cur [OF q] by blast
  let ?m1 = "snd (q_when (VPromise cur) (KGet (Name ''head'')) ?m)"
  let ?m2 = "snd (q_when (VPromise cur) (KGet (Name ''tail'')) ?m1)"
  let ?m3 = "snd (q_when (VPromise ?n) (KGetResult ?c) ?m2)"
  have l1: "length (heap ?m1) = Suc ?n" and mn1: "grows ?m ?m1" using q_when_basic [OF cur(1)] by auto
  have c1: "cur < length (heap ?m1)" using cur(1) l1 by simp
  have l2: "length (heap ?m2) = Suc (Suc ?n)" and mn2: "grows ?m1 ?m2" using q_when_basic [OF c1] l1 by auto
  have n2: "?n < length (heap ?m2)" using l2 by simp
  have l3: "length (heap ?m3) = Suc (Suc (Suc ?n))" and mn3: "grows ?m2 ?m3" using q_when_basic [OF n2] l2 by auto
  have mn: "grows ?m ?m3" using grows_trans [OF grows_trans [OF mn1 mn2] mn3] .
  have ap: "apply_op Get s = s\<lparr>vars := (vars s)\<lparr>ends_promise := VPromise (Suc ?n)\<rparr>, mach := ?m3,
      results := results s @ [VPromise (Suc (Suc ?n))]\<rparr>"
    using get_eq [OF cur(2,1)] by simp
  have cn: "?c < ?n" by (rule minv_c_lt [OF inv])
  show ?thesis
    unfolding ap
  proof (rule rinvI, goal_cases)
    case (1 p i)
    then have p: "p < Suc (Suc (Suc ?n))" and t: "g_ty G' p = TRes i" using l3 by simp_all
    show ?case
    proof (cases "p = Suc (Suc ?n)")
      case True
      then have "i = ?k" using t ty [of p] by simp
      then show ?thesis using True qinv_len [OF q] by (simp add: nth_append)
    next
      case False
      then have pn: "p < ?n" and tg: "g_ty G p = TRes i"
        using t ty [of p] p by (auto split: if_splits)
      have "i < ?k" using minv_bnd [OF inv pn] tg by simp
      then show ?thesis using rinv_res [OF r pn tg] qinv_len [OF q] by (simp add: nth_append)
    qed
  next
    case (2 out)
    then have "heap ?m3 ! ?c = Settled out" by simp
    then have "heap ?m2 ! ?c = Settled out" using q_when_unsettled [of ?c ?m2] cn l2 by simp
    then have "heap ?m1 ! ?c = Settled out" using q_when_unsettled [of ?c ?m1] cn l1 by simp
    then have "heap ?m ! ?c = Settled out" using q_when_unsettled [of ?c ?m] cn by simp
    then obtain p i r' where p: "p < ?n" "g_ty G p = TRes i" "heap ?m ! p = Settled (Rejected r')"
      using rinv_closed [OF r] by blast
    have "heap ?m3 ! p = Settled (Rejected r')" using mn p unfolding grows_def by simp
    moreover have "g_ty G' p = TRes i" using ty [of p] p by simp
    ultimately show ?case using p(1) l3 by (intro exI [of _ p]) auto
  qed
qed

lemma master:
  assumes "plain_puts ops"
  shows "\<exists>G. qinv G (exec ops) \<and> g_vs G = accepted ops \<and> g_cl G = closing ops \<and> g_k G = gets ops
    \<and> rinv G (exec ops)"
  using assms
proof (induction ops rule: rev_induct)
  case Nil
  show ?case using qinv_start rinv_start by (intro exI [of _ ghost0]) (simp add: exec_def ghost0_def)
next
  case (snoc x ops)
  then have "plain_puts ops" unfolding plain_puts_def
    by (cases x) (auto simp: accepted_snoc split: if_splits)
  then obtain G where G: "qinv G (exec ops)" "g_vs G = accepted ops" "g_cl G = closing ops"
    "g_k G = gets ops" and R: "rinv G (exec ops)"
    using snoc.IH by blast
  let ?s = "exec ops"
  have junk: "g_ty G (length (heap (mach ?s))) \<noteq> TRes i" for i
    using minv_junk [OF qinv_minv [OF G(1)], of "length (heap (mach ?s))"] by simp
  show ?case
  proof (cases x)
    case (Put v)
    have m': "mach (apply_op (Put v) ?s) = resolve (ends_resolve (vars ?s)) (VObj (length (objs (mach ?s))))
        ((mach ?s)\<lparr>heap := heap (mach ?s) @ [Pending []],
           objs := objs (mach ?s) @ [object_of [(Name ''head'', v), (Name ''tail'', VPromise (length (heap (mach ?s))))]]\<rparr>)"
      "closed (vars (apply_op (Put v) ?s)) = closed (vars ?s)"
      "results (apply_op (Put v) ?s) = results ?s"
      by (simp_all add: put_eq)
    show ?thesis
    proof (cases "g_cl G")
      case None
      have pv: "plain v" using snoc.prems Put None G(3) unfolding plain_puts_def
        by (simp add: accepted_snoc)
      let ?G' = "G\<lparr>g_vs := g_vs G @ [v], g_cells := g_cells G @ [length (objs (mach ?s))],
                 g_ty := (g_ty G)(length (heap (mach ?s)) := TProd (Suc (length (g_vs G))))\<rparr>"
      have "rinv ?G' (apply_op (Put v) ?s)"
        by (rule rinv_produce [OF G(1) R m']) simp_all
      then show ?thesis
        using qinv_put_open [OF G(1) None pv] G None Put
        by (intro exI [of _ ?G']) (simp add: exec_snoc accepted_snoc closing_snoc gets_snoc)
    next
      case (Some r)
      have "rinv G (apply_op (Put v) ?s)"
        by (rule rinv_produce [OF G(1) R m']) (simp_all add: junk)
      then show ?thesis
        using Some qinv_put_closed [OF G(1), of v] G Put
        by (intro exI [of _ G]) (simp add: exec_snoc accepted_snoc closing_snoc gets_snoc)
    qed
  next
    case Get
    obtain G' where G': "qinv G' (apply_op Get ?s)" "g_vs G' = g_vs G" "g_cl G' = g_cl G"
      "g_k G' = Suc (g_k G)"
      and ty: "\<forall>p. g_ty G' p = (if p = Suc (Suc (length (heap (mach ?s)))) then TRes (g_k G)
          else if p = Suc (length (heap (mach ?s))) then TCur (Suc (g_k G))
          else if p = length (heap (mach ?s)) then THead (g_k G) else g_ty G p)"
      using qinv_get [OF G(1)] by blast
    have "rinv G' (apply_op Get ?s)"
      by (rule rinv_get [OF G(1) R]) (use ty in blast)
    then show ?thesis using G G' Get
      by (intro exI [of _ G']) (simp add: exec_snoc accepted_snoc closing_snoc gets_snoc)
  next
    case (Close reason)
    have m': "mach (apply_op (Close reason) ?s) = resolve (ends_resolve (vars ?s)) (VObj (length (objs (mach ?s))))
        ((mach ?s)\<lparr>heap := heap (mach ?s) @ [Settled (Rejected reason)],
           objs := objs (mach ?s) @ [\<lparr>kind = Plain,
             props = [(Name ''head'', VPromise (length (heap (mach ?s)))), (Name ''tail'', VObj (length (objs (mach ?s))))],
             inherited = []\<rparr>]\<rparr>)"
      "closed (vars (apply_op (Close reason) ?s)) = closed (vars ?s)"
      "results (apply_op (Close reason) ?s) = results ?s"
      by (simp_all add: close_eq)
    show ?thesis
    proof (cases "g_cl G")
      case None
      let ?G' = "G\<lparr>g_cl := Some reason, g_end := length (objs (mach ?s))\<rparr>"
      have "rinv ?G' (apply_op (Close reason) ?s)"
        by (rule rinv_produce [OF G(1) R m']) (simp_all add: junk)
      then show ?thesis
        using qinv_close_open [OF G(1) None, of reason] G None Close
        by (intro exI [of _ ?G']) (simp add: exec_snoc accepted_snoc closing_snoc gets_snoc)
    next
      case (Some r)
      have "rinv G (apply_op (Close reason) ?s)"
        by (rule rinv_produce [OF G(1) R m']) (simp_all add: junk)
      then show ?thesis
        using Some qinv_close_closed [OF G(1), of reason] G Close
        by (intro exI [of _ G]) (simp add: exec_snoc accepted_snoc closing_snoc gets_snoc)
    qed
  next
    case Turn
    then show ?thesis
      using qinv_turn [OF G(1)] rinv_turn [OF G(1) R] G
      by (intro exI [of _ G]) (simp add: exec_snoc accepted_snoc closing_snoc gets_snoc)
  qed
qed

lemma outcome_of_promise: "outcome_of m (VPromise p) = (case heap m ! p of Settled out \<Rightarrow> Some out | _ \<Rightarrow> None)"
  by (simp add: outcome_of_def state_of_def)

lemma ran:
  assumes "plain_puts ops"
  shows "\<exists>G. minv G (closed (vars (exec ops))) {} (run n (mach (exec ops)))
    \<and> g_vs G = accepted ops \<and> g_cl G = closing ops \<and> g_k G = gets ops
    \<and> length (results (exec ops)) = gets ops
    \<and> (\<forall>j < gets ops. \<exists>g < length (heap (run n (mach (exec ops)))).
          results (exec ops) ! j = VPromise g \<and> g_ty G g = TRes j)"
proof -
  obtain G where G: "qinv G (exec ops)" "g_vs G = accepted ops" "g_cl G = closing ops" "g_k G = gets ops"
    using master [OF assms] by blast
  note r = run_inv [OF qinv_minv [OF G(1)] qinv_oinv [OF G(1)], of n]
  have len: "length (heap (mach (exec ops))) \<le> length (heap (run n (mach (exec ops))))"
    using r unfolding grows_def by simp
  have "\<exists>g < length (heap (run n (mach (exec ops)))). results (exec ops) ! j = VPromise g \<and> g_ty G g = TRes j"
    if "j < gets ops" for j
    using qinv_res [OF G(1), of j] that G(4) len by auto
  then show ?thesis using r G qinv_len [OF G(1)] by (intro exI [of _ G]) simp
qed

lemma comes_to_rest:
  assumes "plain_puts ops"
  shows "\<exists>n. quiescent (run n (mach (exec ops)))"
proof -
  obtain G where G: "qinv G (exec ops)" using master [OF assms] by blast
  show ?thesis using drain [OF qinv_minv [OF G] qinv_oinv [OF G]] by blast
qed

lemma den_head_expected:
  "g_vs G = accepted ops \<Longrightarrow> g_cl G = closing ops \<Longrightarrow> den_head G i = expected ops i"
  by (simp add: den_head_def expected_def)

lemma result_safe:
  assumes "plain_puts ops" and "i < gets ops"
    and "outcome_of (run n (mach (exec ops))) (results (exec ops) ! i) = Some out"
  shows "expected ops i = Some out"
proof -
  obtain G g where G: "minv G (closed (vars (exec ops))) {} (run n (mach (exec ops)))"
    "g_vs G = accepted ops" "g_cl G = closing ops"
    and g: "g < length (heap (run n (mach (exec ops))))" "results (exec ops) ! i = VPromise g"
    "g_ty G g = TRes i"
    using ran [OF assms(1), of n] assms(2) by blast
  have "heap (run n (mach (exec ops))) ! g = Settled out"
    using assms(3) g(2) by (auto simp: outcome_of_promise split: pstate.splits)
  then have "den_head G i = Some out" using minv_set [OF G(1) g(1)] g(3) by simp
  then show ?thesis using den_head_expected [OF G(2,3)] by simp
qed

lemma result_at_rest:
  assumes "plain_puts ops" and "i < gets ops" and "quiescent (run n (mach (exec ops)))"
  shows "outcome_of (run n (mach (exec ops))) (results (exec ops) ! i) = expected ops i"
proof (cases "expected ops i")
  case None
  show ?thesis
  proof (cases "outcome_of (run n (mach (exec ops))) (results (exec ops) ! i)")
    case (Some out)
    then show ?thesis using result_safe [OF assms(1,2) Some] by simp
  qed (simp add: None)
next
  case (Some out)
  obtain G g where G: "minv G (closed (vars (exec ops))) {} (run n (mach (exec ops)))"
    "g_vs G = accepted ops" "g_cl G = closing ops"
    and g: "g < length (heap (run n (mach (exec ops))))" "results (exec ops) ! i = VPromise g"
    "g_ty G g = TRes i"
    using ran [OF assms(1), of n] assms(2) by blast
  have "den G (g_ty G g) = Some out" using Some den_head_expected [OF G(2,3)] g(3) by simp
  then have "heap (run n (mach (exec ops))) ! g = Settled out"
    using settled_at_rest [OF G(1) _ g(1)] assms(3) g(3) by (simp add: quiescent_iff)
  then show ?thesis using Some g(2) by (simp add: outcome_of_promise)
qed

lemma closed_safe:
  assumes "plain_puts ops"
    and "outcome_of (run n (mach (exec ops))) (VPromise (closed (vars (exec ops)))) = Some out"
  shows "out = Fulfilled VUndef \<and> closing ops \<noteq> None \<and> length (accepted ops) < gets ops"
proof -
  obtain G where G: "minv G (closed (vars (exec ops))) {} (run n (mach (exec ops)))"
    "g_vs G = accepted ops" "g_cl G = closing ops" "g_k G = gets ops"
    using ran [OF assms(1), of n] by blast
  let ?c = "closed (vars (exec ops))"
  have c: "?c < length (heap (run n (mach (exec ops))))" by (rule minv_c_lt [OF G(1)])
  have "heap (run n (mach (exec ops))) ! ?c = Settled out"
    using assms(2) by (auto simp: outcome_of_promise split: pstate.splits)
  then have "settled_ok G (g_ty G ?c) out" using minv_set [OF G(1) c] by simp
  moreover have "g_ty G ?c = TClosed" using minv_cl [OF G(1) c] by simp
  ultimately show ?thesis using G by simp
qed

lemma closed_at_rest:
  assumes "plain_puts ops" and "closing ops \<noteq> None" and "length (accepted ops) < gets ops"
    and "quiescent (run n (mach (exec ops)))"
  shows "outcome_of (run n (mach (exec ops))) (VPromise (closed (vars (exec ops)))) = Some (Fulfilled VUndef)"
proof -
  let ?i = "length (accepted ops)"
  obtain reason where r: "closing ops = Some reason" using assms(2) by auto
  obtain G g where G: "minv G (closed (vars (exec ops))) {} (run n (mach (exec ops)))"
    and g: "g < length (heap (run n (mach (exec ops))))" "results (exec ops) ! ?i = VPromise g"
    "g_ty G g = TRes ?i"
    using ran [OF assms(1), of n] assms(3) by blast
  have "outcome_of (run n (mach (exec ops))) (results (exec ops) ! ?i) = Some (Rejected reason)"
    using result_at_rest [OF assms(1,3,4)] r by (simp add: expected_def)
  then have "heap (run n (mach (exec ops))) ! g = Settled (Rejected reason)"
    using g(2) by (auto simp: outcome_of_promise split: pstate.splits)
  then have "heap (run n (mach (exec ops))) ! closed (vars (exec ops)) = Settled (Fulfilled VUndef)"
    using minv_rej [OF G g(1,3)] by simp
  then show ?thesis by (simp add: outcome_of_promise)
qed

lemma accepted_append:
  "accepted (xs @ ys) = (if closing xs = None then accepted xs @ accepted ys else accepted xs)"
  by (induction xs rule: accepted.induct) simp_all

lemma closing_append:
  "closing (xs @ ys) = (case closing xs of None \<Rightarrow> closing ys | Some r \<Rightarrow> Some r)"
  by (induction xs rule: closing.induct) simp_all

lemma gets_append: "gets (xs @ ys) = gets xs + gets ys"
  by (induction xs rule: gets.induct) simp_all

lemma run_turns: "run n m = (step ^^ n) m"
proof (induction n arbitrary: m)
  case (Suc n)
  have "(step ^^ n) (step m) = m" if "quiescent m"
  proof -
    have "step m = m" using that by (simp add: quiescent_iff step_def)
    then have "(step ^^ j) m = m" for j by (induction j) simp_all
    then show ?thesis using \<open>step m = m\<close> by simp
  qed
  then show ?case using Suc by (simp add: funpow_swap1)
qed simp

lemma exec_turns: "exec (ops @ replicate n Turn) = (exec ops)\<lparr>mach := run n (mach (exec ops))\<rparr>"
proof (induction n)
  case 0
  show ?case by simp
next
  case (Suc n)
  have "ops @ replicate (Suc n) Turn = (ops @ replicate n Turn) @ [Turn]"
    by (simp add: replicate_append_same)
  then have "exec (ops @ replicate (Suc n) Turn) = apply_op Turn (exec (ops @ replicate n Turn))"
    by (simp only: exec_snoc)
  then show ?case using Suc by (simp add: run_turns)
qed

lemma turns_silent:
  "accepted (ops @ replicate n Turn) = accepted ops"
  "closing (ops @ replicate n Turn) = closing ops"
  "gets (ops @ replicate n Turn) = gets ops"
proof -
  have "accepted (replicate n Turn) = []" "closing (replicate n Turn) = None"
    "gets (replicate n Turn) = 0"
    by (induction n) simp_all
  then show "accepted (ops @ replicate n Turn) = accepted ops"
    "closing (ops @ replicate n Turn) = closing ops"
    "gets (ops @ replicate n Turn) = gets ops"
    by (simp_all add: accepted_append closing_append gets_append split: option.splits)
qed

lemma closed_after_rejection:
  assumes "plain_puts ops"
    and "outcome_of (run n (mach (exec ops))) (VPromise (closed (vars (exec ops)))) = Some out"
  shows "\<exists>i reason. length (accepted ops) \<le> i \<and> i < gets ops \<and> closing ops = Some reason
    \<and> outcome_of (run n (mach (exec ops))) (results (exec ops) ! i) = Some (Rejected reason)"
proof -
  let ?ops = "ops @ replicate n Turn"
  have pp: "plain_puts ?ops" using assms(1) by (simp add: plain_puts_def turns_silent)
  obtain G where G: "qinv G (exec ?ops)" "g_vs G = accepted ops" "g_cl G = closing ops"
    "g_k G = gets ops" and R: "rinv G (exec ?ops)"
    using master [OF pp] by (auto simp: turns_silent)
  let ?m = "run n (mach (exec ops))"
  have e: "mach (exec ?ops) = ?m" "closed (vars (exec ?ops)) = closed (vars (exec ops))"
    "results (exec ?ops) = results (exec ops)"
    by (simp_all add: exec_turns)
  note inv = qinv_minv [OF G(1), unfolded e]
  have "heap ?m ! closed (vars (exec ops)) = Settled out"
    using assms(2) by (auto simp: outcome_of_promise split: pstate.splits)
  then obtain p i r where p: "p < length (heap ?m)" "g_ty G p = TRes i" "heap ?m ! p = Settled (Rejected r)"
    using rinv_closed [OF R] e by auto
  have res: "results (exec ops) ! i = VPromise p" using rinv_res [OF R] p e by simp
  have "i < g_k G" using minv_bnd [OF inv p(1)] p(2) by simp
  moreover have "den_head G i = Some (Rejected r)" using minv_set [OF inv p(1) p(3)] p(2) by simp
  then have "length (accepted ops) \<le> i \<and> closing ops = Some r"
    using G(2,3) by (auto simp: den_head_def split: if_splits option.splits)
  moreover have "outcome_of ?m (results (exec ops) ! i) = Some (Rejected r)"
    using res p(3) by (simp add: outcome_of_promise)
  ultimately show ?thesis using G(4) by auto
qed

text \<open>
  Claim C1. For every sequence of calls of \<^verbatim>\<open>put\<close> and \<^verbatim>\<open>get\<close> in any order (calls of \<^verbatim>\<open>close\<close>
  and turns of the event loop may be interleaved as well), where the values put are not
  themselves futures: the event loop comes to rest, and when it is at rest the future that the
  \<open>i\<close>-th call of \<^verbatim>\<open>get\<close> returned is fulfilled with the \<open>i\<close>-th value put, whether that \<^verbatim>\<open>get\<close>
  came before or after the matching \<^verbatim>\<open>put\<close>.
\<close>

theorem queue_fifo:
  assumes "plain_puts ops" and "i < gets ops" and "i < length (accepted ops)"
  shows "(\<exists>n. quiescent (run n (mach (exec ops))))
    \<and> (\<forall>n. quiescent (run n (mach (exec ops))) \<longrightarrow>
          outcome_of (run n (mach (exec ops))) (results (exec ops) ! i) = Some (Fulfilled (accepted ops ! i)))"
  using comes_to_rest [OF assms(1)] result_at_rest [OF assms(1,2)] assms(3)
  by (simp add: expected_def)

theorem queue_fifo_witness:
  "quiescent (run 40 (mach (exec fifo_ops)))
   \<and> outcome_of (run 40 (mach (exec fifo_ops))) (results (exec fifo_ops) ! 1) = Some (Fulfilled (VNum 2))"
proof -
  have p: "plain_puts fifo_ops" by (simp add: plain_puts_def plain_def fifo_ops_def)
  have g: "1 < gets fifo_ops" by (simp add: fifo_ops_def)
  have a: "1 < length (accepted fifo_ops)" by (simp add: fifo_ops_def)
  have q: "quiescent (run 40 (mach (exec fifo_ops)))" by code_simp
  have v: "accepted fifo_ops ! 1 = VNum 2" by (simp add: fifo_ops_def)
  show ?thesis using queue_fifo [OF p g a] q v by simp
qed

text \<open>
  Claim C2. Once \<^verbatim>\<open>close(reason)\<close> has been called, every call of \<^verbatim>\<open>get\<close> beyond the values put
  before it, however many there are and whenever they are made, returns a future that is
  rejected with \<open>reason\<close> when the event loop is at rest.
\<close>

theorem close_terminal:
  assumes "plain_puts ops" and "closing ops = Some reason"
    and "length (accepted ops) \<le> i" and "i < gets ops"
  shows "(\<exists>n. quiescent (run n (mach (exec ops))))
    \<and> (\<forall>n. quiescent (run n (mach (exec ops))) \<longrightarrow>
          outcome_of (run n (mach (exec ops))) (results (exec ops) ! i) = Some (Rejected reason))"
  using comes_to_rest [OF assms(1)] result_at_rest [OF assms(1,4)] assms(2,3)
  by (simp add: expected_def)

theorem close_terminal_witness:
  "quiescent (run 40 (mach (exec close_ops)))
   \<and> outcome_of (run 40 (mach (exec close_ops))) (results (exec close_ops) ! 2) = Some (Rejected (VStr ''done''))"
proof -
  have p: "plain_puts close_ops" by (simp add: plain_puts_def plain_def close_ops_def)
  have c: "closing close_ops = Some (VStr ''done'')" by (simp add: close_ops_def)
  have a: "length (accepted close_ops) \<le> 2" by (simp add: close_ops_def)
  have g: "2 < gets close_ops" by (simp add: close_ops_def)
  have q: "quiescent (run 40 (mach (exec close_ops)))" by code_simp
  show ?thesis using close_terminal [OF p c a g] q by simp
qed

text \<open>
  Claim C3, for a queue on which the values put before \<^verbatim>\<open>close\<close> are not futures. The future
  \<^verbatim>\<open>closed\<close> fulfils only after a call of \<^verbatim>\<open>get\<close> has observed the close rejection, never merely
  because \<^verbatim>\<open>close\<close> was called:
  \<^item> as long as the queue is not closed, or no more calls of \<^verbatim>\<open>get\<close> have been made than values
    were put before \<^verbatim>\<open>close\<close>, \<^verbatim>\<open>closed\<close> is pending after any number of turns of the event loop;
  \<^item> after any number of turns, if \<^verbatim>\<open>closed\<close> is settled then it is fulfilled, and the future that
    some call of \<^verbatim>\<open>get\<close> beyond the values put has returned is by then rejected with the reason
    of \<^verbatim>\<open>close\<close>;
  \<^item> when the queue is closed and a call of \<^verbatim>\<open>get\<close> has gone beyond the values put, the event
    loop comes to rest and \<^verbatim>\<open>closed\<close> is then fulfilled.
\<close>

theorem closed_signal:
  assumes "plain_puts ops"
  shows "(closing ops = None \<or> gets ops \<le> length (accepted ops) \<longrightarrow>
            (\<forall>n. outcome_of (run n (mach (exec ops))) (VPromise (closed (vars (exec ops)))) = None))
    \<and> (\<forall>n out. outcome_of (run n (mach (exec ops))) (VPromise (closed (vars (exec ops)))) = Some out \<longrightarrow>
          out = Fulfilled VUndef
          \<and> (\<exists>i reason. length (accepted ops) \<le> i \<and> i < gets ops \<and> closing ops = Some reason
                \<and> outcome_of (run n (mach (exec ops))) (results (exec ops) ! i) = Some (Rejected reason)))
    \<and> (closing ops \<noteq> None \<and> length (accepted ops) < gets ops \<longrightarrow>
          (\<exists>n. quiescent (run n (mach (exec ops))))
          \<and> (\<forall>n. quiescent (run n (mach (exec ops))) \<longrightarrow>
                outcome_of (run n (mach (exec ops))) (VPromise (closed (vars (exec ops))))
                  = Some (Fulfilled VUndef)))"
proof (intro conjI impI allI)
  fix n assume a: "closing ops = None \<or> gets ops \<le> length (accepted ops)"
  show "outcome_of (run n (mach (exec ops))) (VPromise (closed (vars (exec ops)))) = None"
  proof (cases "outcome_of (run n (mach (exec ops))) (VPromise (closed (vars (exec ops))))")
    case (Some out)
    then show ?thesis using closed_safe [OF assms Some] a by auto
  qed simp
next
  fix n out
  assume s: "outcome_of (run n (mach (exec ops))) (VPromise (closed (vars (exec ops)))) = Some out"
  show "out = Fulfilled VUndef" using closed_safe [OF assms s] by simp
  show "\<exists>i reason. length (accepted ops) \<le> i \<and> i < gets ops \<and> closing ops = Some reason
      \<and> outcome_of (run n (mach (exec ops))) (results (exec ops) ! i) = Some (Rejected reason)"
    by (rule closed_after_rejection [OF assms s])
next
  show "\<exists>n. quiescent (run n (mach (exec ops)))" by (rule comes_to_rest [OF assms])
next
  fix n assume "closing ops \<noteq> None \<and> length (accepted ops) < gets ops"
    and "quiescent (run n (mach (exec ops)))"
  then show "outcome_of (run n (mach (exec ops))) (VPromise (closed (vars (exec ops)))) = Some (Fulfilled VUndef)"
    using closed_at_rest [OF assms] by simp
qed

theorem closed_signal_witness:
  "outcome_of (run 40 (mach (exec [Put (VNum 1), Close (VStr ''done''), Get])))
     (VPromise (closed (vars (exec [Put (VNum 1), Close (VStr ''done''), Get])))) = None
   \<and> quiescent (run 40 (mach (exec late_ops)))
   \<and> outcome_of (run 40 (mach (exec late_ops))) (VPromise (closed (vars (exec late_ops))))
       = Some (Fulfilled VUndef)
   \<and> outcome_of (run 40 (mach (exec late_ops))) (results (exec late_ops) ! 1)
       = Some (Rejected (VStr ''done''))"
proof -
  let ?early = "[Put (VNum 1), Close (VStr ''done''), Get]"
  have p1: "plain_puts ?early" by (simp add: plain_puts_def plain_def)
  have e: "closing ?early = None \<or> gets ?early \<le> length (accepted ?early)" by simp
  have p2: "plain_puts late_ops" by (simp add: plain_puts_def plain_def late_ops_def)
  have l: "closing late_ops \<noteq> None \<and> length (accepted late_ops) < gets late_ops"
    by (simp add: late_ops_def)
  have q: "quiescent (run 40 (mach (exec late_ops)))" by code_simp
  have a: "outcome_of (run 40 (mach (exec ?early))) (VPromise (closed (vars (exec ?early)))) = None"
    using closed_signal [OF p1] e by blast
  have c: "outcome_of (run 40 (mach (exec late_ops))) (VPromise (closed (vars (exec late_ops))))
      = Some (Fulfilled VUndef)"
    using closed_signal [OF p2] l q by blast
  obtain i reason where i: "length (accepted late_ops) \<le> i" "i < gets late_ops"
    "closing late_ops = Some reason"
    "outcome_of (run 40 (mach (exec late_ops))) (results (exec late_ops) ! i) = Some (Rejected reason)"
    using closed_signal [OF p2] c by blast
  have "i = 1" "reason = VStr ''done''" using i(1,2,3) by (simp_all add: late_ops_def)
  then show ?thesis using a q c i(4) by simp
qed

text \<open>
  The hypothesis on the values put is needed. The rejection callback of \<^verbatim>\<open>get\<close> calls
  \<^verbatim>\<open>closed.resolve()\<close> for every rejected head: when a rejected future is put and a call of
  \<^verbatim>\<open>get\<close> reaches it, \<^verbatim>\<open>closed\<close> is fulfilled although \<^verbatim>\<open>close\<close> was never called.
\<close>

theorem closed_without_close:
  "closing [Put (VPromise 0), Get] = None
   \<and> outcome_of (mach rejected_item) (VPromise 0) = Some (Rejected (VStr ''x''))
   \<and> quiescent (run 64 (mach rejected_item))
   \<and> outcome_of (run 64 (mach rejected_item)) (results rejected_item ! 0) = Some (Rejected (VStr ''x''))
   \<and> outcome_of (run 64 (mach rejected_item)) (VPromise (closed (vars rejected_item)))
       = Some (Fulfilled VUndef)"
  by code_simp

text \<open>
  Claim C10. A call of \<^verbatim>\<open>put\<close> that is made at any point after the first \<^verbatim>\<open>close(reason)\<close> changes
  the outcome of no future that \<^verbatim>\<open>get\<close> returns: with and without that call, the \<open>i\<close>-th \<^verbatim>\<open>get\<close>
  has the same outcome at rest, and beyond the values put before \<^verbatim>\<open>close\<close> this outcome is the
  rejection with \<open>reason\<close>. The value put may be any value, also a future.
\<close>

theorem put_after_close:
  assumes "plain_puts (before @ Close reason # after1 @ after2)" and "closing before = None"
    and "i < gets (before @ Close reason # after1 @ after2)"
  shows "(\<exists>n. quiescent (run n (mach (exec (before @ Close reason # after1 @ after2)))))
    \<and> (\<exists>n. quiescent (run n (mach (exec (before @ Close reason # after1 @ Put v # after2)))))
    \<and> (\<forall>n n'. quiescent (run n (mach (exec (before @ Close reason # after1 @ after2))))
          \<and> quiescent (run n' (mach (exec (before @ Close reason # after1 @ Put v # after2)))) \<longrightarrow>
         outcome_of (run n' (mach (exec (before @ Close reason # after1 @ Put v # after2))))
           (results (exec (before @ Close reason # after1 @ Put v # after2)) ! i)
         = outcome_of (run n (mach (exec (before @ Close reason # after1 @ after2))))
           (results (exec (before @ Close reason # after1 @ after2)) ! i)
       \<and> (length (accepted before) \<le> i \<longrightarrow>
         outcome_of (run n' (mach (exec (before @ Close reason # after1 @ Put v # after2))))
           (results (exec (before @ Close reason # after1 @ Put v # after2)) ! i)
         = Some (Rejected reason)))"
proof -
  let ?a = "before @ Close reason # after1 @ after2"
  let ?b = "before @ Close reason # after1 @ Put v # after2"
  have acc: "accepted ?b = accepted ?a" "accepted ?a = accepted before"
    using assms(2) by (simp_all add: accepted_append)
  have cl: "closing ?b = closing ?a" "closing ?a = Some reason"
    using assms(2) by (simp_all add: closing_append)
  have g: "gets ?b = gets ?a" by (simp add: gets_append)
  have pb: "plain_puts ?b" using assms(1) acc unfolding plain_puts_def by simp
  have ib: "i < gets ?b" using g assms(3) by simp
  have ex: "expected ?b i = expected ?a i" using acc cl by (simp add: expected_def)
  have "outcome_of (run n' (mach (exec ?b))) (results (exec ?b) ! i)
          = outcome_of (run n (mach (exec ?a))) (results (exec ?a) ! i)
      \<and> (length (accepted before) \<le> i \<longrightarrow>
          outcome_of (run n' (mach (exec ?b))) (results (exec ?b) ! i) = Some (Rejected reason))"
    if "quiescent (run n (mach (exec ?a)))" and "quiescent (run n' (mach (exec ?b)))" for n n'
    using result_at_rest [OF assms(1,3) that(1)] result_at_rest [OF pb ib that(2)] ex acc cl
    by (simp add: expected_def)
  then show ?thesis using comes_to_rest [OF assms(1)] comes_to_rest [OF pb] by blast
qed

theorem put_after_close_witness:
  "quiescent (run 40 (mach (exec ([Put (VNum 1)] @ Close (VStr ''done'') # [Get] @ [Get]))))
   \<and> quiescent (run 40 (mach (exec ([Put (VNum 1)] @ Close (VStr ''done'') # [Get] @ Put (VNum 9) # [Get]))))
   \<and> outcome_of (run 40 (mach (exec ([Put (VNum 1)] @ Close (VStr ''done'') # [Get] @ Put (VNum 9) # [Get]))))
       (results (exec ([Put (VNum 1)] @ Close (VStr ''done'') # [Get] @ Put (VNum 9) # [Get])) ! 1)
     = Some (Rejected (VStr ''done''))"
proof -
  have p: "plain_puts ([Put (VNum 1)] @ Close (VStr ''done'') # [Get] @ [Get])"
    by (simp add: plain_puts_def plain_def)
  have c: "closing [Put (VNum 1)] = None" by simp
  have g: "1 < gets ([Put (VNum 1)] @ Close (VStr ''done'') # [Get] @ [Get])" by simp
  have a: "length (accepted [Put (VNum 1)]) \<le> 1" by simp
  have q1: "quiescent (run 40 (mach (exec ([Put (VNum 1)] @ Close (VStr ''done'') # [Get] @ [Get]))))"
    by code_simp
  have q2: "quiescent (run 40 (mach (exec ([Put (VNum 1)] @ Close (VStr ''done'') # [Get] @ Put (VNum 9) # [Get]))))"
    by code_simp
  show ?thesis using put_after_close [OF p c g, of "VNum 9"] q1 q2 a by blast
qed

subsection \<open>Deep resolution\<close>

text \<open>
  Resolving a structure that holds no future: every continuation of \<^verbatim>\<open>consolidate\<close> finds the
  member it waits for already there and writes back the value the object holds.
\<close>

lemma frame_refl: "frame r m m"
  by (simp add: frame_def)














lemma waiting_chain_length: "waiting_chain hp s hs fin \<Longrightarrow> s + length hs < length hp"
proof (induction hs arbitrary: s)
  case Nil
  then show ?case by simp
next
  case (Cons h hs)
  have "waiting_chain hp (Suc s) hs fin" using Cons.prems by simp
  then have "Suc s + length hs < length hp" by (rule Cons.IH)
  then show ?case by simp
qed





















end
